theory Spec2Isabelle
  imports Complex_Main "HOL-Library.AList" "HOL-Library.Multiset"
begin

section \<open>Python values and exceptions\<close>

text \<open>
  The exceptions the modelled functions raise.  A function that can raise returns
  \<open>py_error + 'a\<close>, with \<open>Inl\<close> for the exception; a raise loses the object under
  construction, so only normal returns carry a state.
\<close>

datatype py_error =
    TypeError
  | ValueError
  | KeyError
  | AssertionError
  | UnboundLocalError
  | NoConnectionException

text \<open>
  The values a user can put into the \<open>splitting\<close> list of a Trotter splitting.  Python's
  \<open>bool\<close> is a subclass of \<open>int\<close> and is covered by \<open>PyInt\<close>; floats are idealised as
  reals.
\<close>

datatype py_value =
    PyNone
  | PyInt int
  | PyFloat real
  | PyStr string
  | PyTuple "py_value list"
  | PyList "py_value list"

fun isinstance_int :: "py_value \<Rightarrow> bool" where
  "isinstance_int (PyInt _) = True"
| "isinstance_int _ = False"

fun isinstance_tuple :: "py_value \<Rightarrow> bool" where
  "isinstance_tuple (PyTuple _) = True"
| "isinstance_tuple _ = False"

section \<open>time\_evolution/trotter.py\<close>

subsection \<open>SWAPlist\<close>

text \<open>
  A swap pair is any sized sequence of node names; the constructor only looks at its
  length.  \<open>SWAPlist\<close> subclasses \<open>list\<close>, so an instance is the list of its pairs.
\<close>

type_synonym swap_pair = "string list"
type_synonym SWAPlist = "swap_pair list"

text \<open>\<open>for pair in swap_list\<close>: iterating \<open>None\<close> raises \<open>TypeError\<close>.\<close>

definition py_iter :: "'a list option \<Rightarrow> py_error + 'a list" where
  "py_iter xs = (case xs of None \<Rightarrow> Inl TypeError | Some l \<Rightarrow> Inr l)"

text \<open>The body of the loop of \<open>SWAPlist.__init__\<close> (lines 35 to 37).\<close>

fun check_pairs :: "swap_pair list \<Rightarrow> py_error + unit" where
  "check_pairs [] = Inr ()"
| "check_pairs (pair # rest) =
     (if \<not> (length pair = 2) then Inl ValueError else check_pairs rest)"

text \<open>
  \<open>SWAPlist.__init__\<close> (lines 24 to 40): the loop runs first, the \<open>None\<close> test that
  would substitute the empty list comes after it.
\<close>

definition SWAPlist_init :: "swap_pair list option \<Rightarrow> py_error + SWAPlist" where
  "SWAPlist_init swap_list =
     (case py_iter swap_list of
        Inl e \<Rightarrow> Inl e
      | Inr pairs \<Rightarrow>
          (case check_pairs pairs of
             Inl e \<Rightarrow> Inl e
           | Inr _ \<Rightarrow>
               (let swap_list' = (if swap_list = None then [] else the swap_list)
                in Inr swap_list')))"

subsection \<open>TrotterStep\<close>

record 'op TrotterStep =
  operator :: 'op
  factor :: real
  swaps_before :: SWAPlist
  swaps_after :: SWAPlist

text \<open>\<open>TrotterStep.__init__\<close> (lines 123 to 152); \<open>SWAPlist()\<close> is \<open>SWAPlist_init None\<close>.\<close>

definition TrotterStep_init ::
  "'op \<Rightarrow> real \<Rightarrow> SWAPlist option \<Rightarrow> SWAPlist option \<Rightarrow> py_error + 'op TrotterStep" where
  "TrotterStep_init op fac sb sa =
     (case (case sb of None \<Rightarrow> SWAPlist_init None | Some s \<Rightarrow> Inr s) of
        Inl e \<Rightarrow> Inl e
      | Inr before \<Rightarrow>
          (case (case sa of None \<Rightarrow> SWAPlist_init None | Some s \<Rightarrow> Inr s) of
             Inl e \<Rightarrow> Inl e
           | Inr after \<Rightarrow>
               Inr \<lparr>operator = op, factor = fac, swaps_before = before, swaps_after = after\<rparr>))"

subsection \<open>TrotterSplitting\<close>

record 'tp TrotterSplitting =
  tensor_products :: "'tp list"
  splitting :: "py_value list"
  ts_swaps_before :: "SWAPlist list"
  ts_swaps_after :: "SWAPlist list"

text \<open>The loop over the given splitting (lines 235 to 242), with the list built so far.\<close>

fun read_splitting :: "py_value list \<Rightarrow> py_value list \<Rightarrow> py_error + py_value list" where
  "read_splitting acc [] = Inr acc"
| "read_splitting acc (item # rest) =
     (if isinstance_int item then read_splitting (acc @ [PyTuple [item, PyInt 1]]) rest
      else if isinstance_tuple item then read_splitting (acc @ [item]) rest
      else Inl TypeError)"

text \<open>\<open>[SWAPlist([])] * n\<close>: one empty swap list, repeated.\<close>

definition default_swaps :: "nat \<Rightarrow> py_error + SWAPlist list" where
  "default_swaps n =
     (case SWAPlist_init (Some []) of Inl e \<Rightarrow> Inl e | Inr s \<Rightarrow> Inr (replicate n s))"

text \<open>\<open>TrotterSplitting.__init__\<close> (lines 201 to 251).\<close>

definition TrotterSplitting_init ::
  "'tp list \<Rightarrow> py_value list option \<Rightarrow> SWAPlist list option \<Rightarrow> SWAPlist list option
     \<Rightarrow> py_error + 'tp TrotterSplitting" where
  "TrotterSplitting_init tps spl sb sa =
     (case (case spl of
              None \<Rightarrow> Inr (map (\<lambda>index. PyTuple [PyInt (int index), PyInt 1]) [0..<length tps])
            | Some items \<Rightarrow> read_splitting [] items) of
        Inl e \<Rightarrow> Inl e
      | Inr the_splitting \<Rightarrow>
          (case (case sb of None \<Rightarrow> default_swaps (length the_splitting) | Some s \<Rightarrow> Inr s) of
             Inl e \<Rightarrow> Inl e
           | Inr before \<Rightarrow>
               (case (case sa of None \<Rightarrow> default_swaps (length the_splitting) | Some s \<Rightarrow> Inr s) of
                  Inl e \<Rightarrow> Inl e
                | Inr after \<Rightarrow>
                    Inr \<lparr>tensor_products = tps, splitting = the_splitting,
                         ts_swaps_before = before, ts_swaps_after = after\<rparr>)))"

section \<open>time\_evolution/time\_evolution.py\<close>

text \<open>
  The operators argument is a single tensor product or a list of them.  The state and
  the tensor products are kept abstract; \<open>deepcopy\<close> is the identity on values.
\<close>

datatype 'op operators_arg = Single 'op | Many "'op list"

record ('st, 'op) TimeEvolution =
  initial_state :: 'st
  state :: 'st
  time_step_size :: real
  final_time :: real
  num_time_steps :: int
  operators :: "'op list"
  results :: "complex list list option"

text \<open>
  \<open>math.modf\<close>: the fractional and the integer part, both with the sign of the
  argument.
\<close>

definition modf :: "real \<Rightarrow> real \<times> real" where
  "modf x =
     (let integer = (if 0 \<le> x then of_int \<lfloor>x\<rfloor> else of_int \<lceil>x\<rceil>)
      in (x - integer, integer))"

text \<open>\<open>_compute_num_time_steps\<close> (lines 52 to 62); \<open>int\<close> truncates towards zero.\<close>

definition py_int_of_real :: "real \<Rightarrow> int" where
  "py_int_of_real x = (if 0 \<le> x then \<lfloor>x\<rfloor> else \<lceil>x\<rceil>)"

definition compute_num_time_steps :: "real \<Rightarrow> real \<Rightarrow> int" where
  "compute_num_time_steps the_final_time the_time_step_size =
     (case modf (the_final_time / the_time_step_size) of
        (decimal, integer) \<Rightarrow>
          if decimal < 0.1 then py_int_of_real integer else py_int_of_real (integer + 1))"

text \<open>\<open>TimeEvolution.__init__\<close> (lines 19 to 50).\<close>

definition TimeEvolution_init ::
  "'st \<Rightarrow> real \<Rightarrow> real \<Rightarrow> 'op operators_arg \<Rightarrow> py_error + ('st, 'op) TimeEvolution" where
  "TimeEvolution_init init_state step_size fin_time ops =
     (if step_size \<le> 0 then Inl ValueError
      else if fin_time \<le> 0 then Inl ValueError
      else Inr \<lparr>initial_state = init_state, state = init_state,
                time_step_size = step_size, final_time = fin_time,
                num_time_steps = compute_num_time_steps fin_time step_size,
                operators = (case ops of Single p \<Rightarrow> [p] | Many ps \<Rightarrow> ps),
                results = None\<rparr>)"

section \<open>Dense arrays\<close>

text \<open>
  A numpy array of complex numbers: its shape and its entries in row-major order, so
  that \<open>flatten\<close> is the list of entries.  Floating-point numbers are idealised as the
  exact real and complex numbers.
\<close>

record ndarray =
  shape :: "nat list"
  entries :: "complex list"


definition flatten :: "ndarray \<Rightarrow> ndarray" where
  "flatten a = \<lparr>shape = [length (entries a)], entries = entries a\<rparr>"

text \<open>\<open>np.reshape\<close> raises \<open>ValueError\<close> when the new shape has another size.\<close>

definition reshape :: "ndarray \<Rightarrow> nat list \<Rightarrow> py_error + ndarray" where
  "reshape a newshape =
     (if prod_list newshape = length (entries a)
      then Inr \<lparr>shape = newshape, entries = entries a\<rparr>
      else Inl ValueError)"

text \<open>A scalar times an array, and an array times a scalar, entry by entry.\<close>

definition scalar_times :: "complex \<Rightarrow> ndarray \<Rightarrow> ndarray" where
  "scalar_times c a = a\<lparr>entries := map (\<lambda>x. c * x) (entries a)\<rparr>"

definition times_scalar :: "ndarray \<Rightarrow> complex \<Rightarrow> ndarray" where
  "times_scalar a c = a\<lparr>entries := map (\<lambda>x. x * c) (entries a)\<rparr>"

definition conj_array :: "ndarray \<Rightarrow> ndarray" where
  "conj_array a = a\<lparr>entries := map cnj (entries a)\<rparr>"

section \<open>time\_evolve\<close>

text \<open>
  \<open>time_evolve\<close> (time\_evolution.py, lines 191 to 215).  \<open>fast_exp_action\<close> lives in
  the module \<open>util\<close>, which is not among the sources: it is the parameter \<open>exp_action\<close>,
  which takes the exponent matrix and a vector and returns the action of the matrix
  exponential on the vector, or raises.  \<open>forward\<close> is a \<open>bool\<close>, used as the integer
  0 or 1.
\<close>

definition time_evolve ::
  "(ndarray \<Rightarrow> ndarray \<Rightarrow> py_error + ndarray) \<Rightarrow> ndarray \<Rightarrow> ndarray \<Rightarrow> real \<Rightarrow> bool
     \<Rightarrow> py_error + ndarray" where
  "time_evolve exp_action psi hamiltonian time_difference forward =
     (let sign = - 2 * (if forward then 1 else 0) + (1 :: int);
          exponent = times_scalar (scalar_times (of_int sign * \<i>) hamiltonian)
                       (of_real time_difference)
      in case exp_action exponent (flatten psi) of
           Inl e \<Rightarrow> Inl e
         | Inr v \<Rightarrow> reshape v (shape psi))"

section \<open>Tensor nodes and their contraction (node\_contraction.py)\<close>

text \<open>
  The class \<open>TensorNode\<close> (module \<open>tensornode\<close>) is not among the sources.  Its fields
  are read off their uses in \<open>node_contraction.py\<close> and in \<open>conjugate_node\<close>:
  \<open>parent_leg\<close> is the empty list or the pair of the parent's identifier and a leg
  index, \<open>children_legs\<close> is a dictionary from child identifiers to leg indices.
  \<open>is_root\<close> and \<open>is_parent_of\<close> are those of \<open>Node\<close> in \<open>node.py\<close>, read on these
  fields.  A dictionary is an association list with distinct keys in insertion order.
\<close>

record named =
  "identifier" :: string
  tag :: string

record TensorNode = named +
  tensor :: ndarray
  parent_leg :: "(string \<times> int) option"
  children_legs :: "(string \<times> int) list"

definition tn_is_root :: "TensorNode \<Rightarrow> bool" where
  "tn_is_root n = (parent_leg n = None)"



text \<open>
  \<open>conjugate_node\<close> (node.py, lines 207 to 229).  \<open>copy_object\<close> is the identity on
  values; the prefixed identifier and tag are never empty, so the setters store them.
\<close>

definition conjugate_node :: "TensorNode \<Rightarrow> bool \<Rightarrow> bool \<Rightarrow> TensorNode" where
  "conjugate_node node deep_copy conj_neighbours =
     (let conj_node = node;
          new_identifier = ''conj_'' @ identifier conj_node;
          new_tag = ''conj_'' @ tag conj_node;
          conj_node = conj_node\<lparr>identifier := new_identifier, tag := new_tag\<rparr>;
          conj_node =
            (if conj_neighbours
             then (let conj_node =
                         (if \<not> tn_is_root node
                          then conj_node\<lparr>parent_leg :=
                                 map_option (\<lambda>(p, leg). (''conj_'' @ p, leg)) (parent_leg conj_node)\<rparr>
                          else conj_node)
                   in conj_node\<lparr>children_legs :=
                        map (\<lambda>(child_id, leg). (''conj_'' @ child_id, leg)) (children_legs conj_node)\<rparr>)
             else conj_node)
      in conj_node\<lparr>tensor := conj_array (tensor conj_node)\<rparr>)"

definition construct_contracted_identifier :: "string \<Rightarrow> string \<Rightarrow> string option \<Rightarrow> string" where
  "construct_contracted_identifier node1_id node2_id new_identifier =
     (case new_identifier of None \<Rightarrow> node1_id @ ''_contr_'' @ node2_id | Some s \<Rightarrow> s)"

definition construct_contracted_tag :: "string \<Rightarrow> string \<Rightarrow> string option \<Rightarrow> string" where
  "construct_contracted_tag node1_tag node2_tag new_tag =
     (case new_tag of None \<Rightarrow> node1_tag @ ''_contr_'' @ node2_tag | Some s \<Rightarrow> s)"





text \<open>
  \<open>transfer_tensor\<close> (lines 124 to 139).  The body ends after the tag is computed; a
  Python function that ends without \<open>return\<close> returns \<open>None\<close>.
\<close>

definition transfer_tensor :: "TensorNode \<Rightarrow> string option \<Rightarrow> string option \<Rightarrow> TensorNode option" where
  "transfer_tensor node new_tag new_identifier =
     (let conj_node = conjugate_node node True True;
          node_id = identifier node;
          conj_node_id = identifier conj_node;
          new_identifier = construct_contracted_identifier node_id conj_node_id new_identifier;
          new_tag = construct_contracted_tag (tag node) (tag conj_node) new_tag
      in None)"

section \<open>Nodes (node.py)\<close>

text \<open>
  A node knows its identifier, its tag, its parent (\<open>None\<close> for a root) and the ordered
  list of its children.  \<open>Node.__init__\<close> (lines 18 to 44) draws a fresh
  \<open>uuid.uuid1()\<close> when the identifier is empty; the drawn string is the parameter
  \<open>uuid\<close>.
\<close>

record Node = named +
  parent :: "string option"
  children :: "string list"

definition Node_init :: "string \<Rightarrow> string \<Rightarrow> string \<Rightarrow> Node" where
  "Node_init uuid the_tag the_identifier =
     (let i = (if the_identifier = [] then uuid else the_identifier);
          t = (if the_tag = [] then i else the_tag)
      in \<lparr>identifier = i, tag = t, parent = None, children = []\<rparr>)"

text \<open>
  \<open>add_parent\<close> (lines 83 to 92) refuses a node that has a parent.  The new parent may
  be \<open>None\<close>: \<open>combine_nodes\<close> passes the parent of a root.
\<close>

definition add_parent :: "Node \<Rightarrow> string option \<Rightarrow> py_error + Node" where
  "add_parent n parent_id =
     (if parent n \<noteq> None then Inl ValueError else Inr (n\<lparr>parent := parent_id\<rparr>))"

definition remove_parent :: "Node \<Rightarrow> Node" where
  "remove_parent n = n\<lparr>parent := None\<rparr>"

definition add_child :: "Node \<Rightarrow> string \<Rightarrow> Node" where
  "add_child n child_id = n\<lparr>children := children n @ [child_id]\<rparr>"

definition add_children :: "Node \<Rightarrow> string list \<Rightarrow> Node" where
  "add_children n children_ids = n\<lparr>children := children n @ children_ids\<rparr>"

text \<open>\<open>list.remove\<close> deletes the first occurrence and raises when there is none.\<close>

definition list_remove :: "'a list \<Rightarrow> 'a \<Rightarrow> py_error + 'a list" where
  "list_remove xs x = (if x \<in> set xs then Inr (remove1 x xs) else Inl ValueError)"

definition remove_child :: "Node \<Rightarrow> string \<Rightarrow> py_error + Node" where
  "remove_child n child_id =
     (case list_remove (children n) child_id of
        Inl e \<Rightarrow> Inl e
      | Inr cs \<Rightarrow> Inr (n\<lparr>children := cs\<rparr>))"

text \<open>\<open>list.index\<close>: the first position of the element, or \<open>ValueError\<close>.\<close>

fun list_index :: "'a list \<Rightarrow> 'a \<Rightarrow> py_error + nat" where
  "list_index [] x = Inl ValueError"
| "list_index (y # ys) x =
     (if y = x then Inr 0
      else (case list_index ys x of Inl e \<Rightarrow> Inl e | Inr i \<Rightarrow> Inr (Suc i)))"

definition child_index :: "Node \<Rightarrow> string \<Rightarrow> py_error + nat" where
  "child_index n child_id = list_index (children n) child_id"

definition replace_child :: "Node \<Rightarrow> string \<Rightarrow> string \<Rightarrow> py_error + Node" where
  "replace_child n child_id new_child_id =
     (if child_id = new_child_id then Inr n
      else (case child_index n child_id of
              Inl e \<Rightarrow> Inl e
            | Inr i \<Rightarrow> Inr (n\<lparr>children := (children n)[i := new_child_id]\<rparr>)))"

definition is_root :: "Node \<Rightarrow> bool" where
  "is_root n = (parent n = None)"

definition is_leaf :: "Node \<Rightarrow> bool" where
  "is_leaf n = (length (children n) = 0)"

definition neighbouring_nodes :: "Node \<Rightarrow> string list" where
  "neighbouring_nodes n =
     (if is_root n then [] else [the (parent n)]) @ children n"

definition is_child_of :: "Node \<Rightarrow> string \<Rightarrow> bool" where
  "is_child_of n other_node_id = (if is_root n then False else parent n = Some other_node_id)"

definition is_parent_of :: "Node \<Rightarrow> string \<Rightarrow> bool" where
  "is_parent_of n other_node_id = (other_node_id \<in> set (children n))"

section \<open>The tree (tree\_structure.py)\<close>

text \<open>
  \<open>_nodes\<close> is a dictionary from identifiers to nodes, \<open>_root_id\<close> is \<open>None\<close> in a new
  tree.  The node objects are owned by the dictionary: a method that changes a node
  stores the changed node under its key.  References that a caller keeps to a node or
  to an argument list are outside the model.
\<close>

record TreeStructure =
  nodes :: "(string \<times> Node) list"
  root_id :: "string option"

definition empty_tree :: TreeStructure where
  "empty_tree = \<lparr>nodes = [], root_id = None\<rparr>"

definition contains :: "TreeStructure \<Rightarrow> string \<Rightarrow> bool" where
  "contains t node_id = (node_id \<in> fst ` set (nodes t))"

text \<open>\<open>self._nodes[key]\<close> raises \<open>KeyError\<close> on a missing key.\<close>

definition getitem :: "('k \<times> 'v) list \<Rightarrow> 'k \<Rightarrow> py_error + 'v" where
  "getitem d k = (case map_of d k of None \<Rightarrow> Inl KeyError | Some v \<Rightarrow> Inr v)"

text \<open>\<open>dict.pop(key)\<close> with no default raises \<open>KeyError\<close> on a missing key.\<close>

definition dict_pop :: "('k \<times> 'v) list \<Rightarrow> 'k \<Rightarrow> py_error + ('k \<times> 'v) list" where
  "dict_pop d k = (if k \<in> fst ` set d then Inr (AList.delete k d) else Inl KeyError)"

definition ensure_uniqueness :: "TreeStructure \<Rightarrow> string \<Rightarrow> py_error + unit" where
  "ensure_uniqueness t node_id = (if contains t node_id then Inl ValueError else Inr ())"

definition ensure_existence :: "TreeStructure \<Rightarrow> string \<Rightarrow> py_error + unit" where
  "ensure_existence t node_id = (if \<not> contains t node_id then Inl ValueError else Inr ())"

text \<open>\<open>_add_node\<close> (lines 95 to 103).\<close>

definition priv_add_node :: "TreeStructure \<Rightarrow> Node \<Rightarrow> py_error + TreeStructure" where
  "priv_add_node t new_node =
     (case ensure_uniqueness t (identifier new_node) of
        Inl e \<Rightarrow> Inl e
      | Inr _ \<Rightarrow> Inr (t\<lparr>nodes := AList.update (identifier new_node) new_node (nodes t)\<rparr>))"

text \<open>\<open>add_root\<close> (lines 105 to 111).\<close>

definition add_root :: "TreeStructure \<Rightarrow> Node \<Rightarrow> py_error + TreeStructure" where
  "add_root t node =
     (if root_id t \<noteq> None then Inl AssertionError
      else Inr (t\<lparr>root_id := Some (identifier node),
                  nodes := AList.update (identifier node) node (nodes t)\<rparr>))"

text \<open>\<open>add_child_to_parent\<close> (lines 113 to 127).\<close>

definition add_child_to_parent :: "TreeStructure \<Rightarrow> Node \<Rightarrow> string \<Rightarrow> py_error + TreeStructure" where
  "add_child_to_parent t child parent_id =
     (case ensure_existence t parent_id of
        Inl e \<Rightarrow> Inl e
      | Inr _ \<Rightarrow>
     (case priv_add_node t child of
        Inl e \<Rightarrow> Inl e
      | Inr t1 \<Rightarrow>
     (case add_parent child (Some parent_id) of
        Inl e \<Rightarrow> Inl e
      | Inr child' \<Rightarrow>
     (let child_id = identifier child';
          d2 = AList.update child_id child' (nodes t1)
      in case getitem d2 parent_id of
           Inl e \<Rightarrow> Inl e
         | Inr the_parent \<Rightarrow>
             Inr (t1\<lparr>nodes := AList.update parent_id (add_child the_parent child_id) d2\<rparr>)))))"

text \<open>
  \<open>add_parent_to_root\<close> (lines 129 to 140).  In a tree without a root the lookup of
  the key \<open>None\<close> raises.
\<close>

definition add_parent_to_root :: "TreeStructure \<Rightarrow> Node \<Rightarrow> py_error + TreeStructure" where
  "add_parent_to_root t new_root =
     (case priv_add_node t new_root of
        Inl e \<Rightarrow> Inl e
      | Inr t1 \<Rightarrow>
     (case root_id t1 of
        None \<Rightarrow> Inl KeyError
      | Some old_root_id \<Rightarrow>
     (let new_id = identifier new_root;
          d2 = AList.update new_id (add_child new_root old_root_id) (nodes t1)
      in case getitem d2 old_root_id of
           Inl e \<Rightarrow> Inl e
         | Inr current_root \<Rightarrow>
             (case add_parent current_root (Some new_id) of
                Inl e \<Rightarrow> Inl e
              | Inr current_root' \<Rightarrow>
                  Inr (t1\<lparr>nodes := AList.update old_root_id current_root' d2,
                          root_id := Some new_id\<rparr>)))))"

text \<open>\<open>determine_parentage\<close> (lines 284 to 309).\<close>

definition determine_parentage ::
  "TreeStructure \<Rightarrow> string \<Rightarrow> string \<Rightarrow> py_error + string \<times> string" where
  "determine_parentage t node_id1 node_id2 =
     (case getitem (nodes t) node_id1 of
        Inl e \<Rightarrow> Inl e
      | Inr node1 \<Rightarrow>
     (case getitem (nodes t) node_id2 of
        Inl e \<Rightarrow> Inl e
      | Inr node2 \<Rightarrow>
          if is_child_of node2 node_id1 then Inr (node_id1, node_id2)
          else if is_child_of node1 node_id2 then Inr (node_id2, node_id1)
          else Inl ValueError))"

text \<open>
  The loop of \<open>_replace_node\<close> (lines 341 to 344): every listed child gets the new
  node's identifier as its parent.
\<close>

fun reparent_children ::
  "string \<Rightarrow> string list \<Rightarrow> (string \<times> Node) list \<Rightarrow> py_error + (string \<times> Node) list" where
  "reparent_children new_ident [] d = Inr d"
| "reparent_children new_ident (node_id # rest) d =
     (case getitem d node_id of
        Inl e \<Rightarrow> Inl e
      | Inr node \<Rightarrow>
          (case add_parent (remove_parent node) (Some new_ident) of
             Inl e \<Rightarrow> Inl e
           | Inr node' \<Rightarrow> reparent_children new_ident rest (AList.update node_id node' d)))"

text \<open>
  \<open>_replace_node\<close> (lines 331 to 347).  The test for a root reads the new node after
  the loop, which may have changed its parent.
\<close>

definition priv_replace_node :: "TreeStructure \<Rightarrow> string \<Rightarrow> string \<Rightarrow> py_error + TreeStructure" where
  "priv_replace_node t new_node_id old_node_id =
     (case getitem (nodes t) new_node_id of
        Inl e \<Rightarrow> Inl e
      | Inr new_node \<Rightarrow>
     (case reparent_children (identifier new_node) (children new_node) (nodes t) of
        Inl e \<Rightarrow> Inl e
      | Inr d \<Rightarrow>
     (case getitem d new_node_id of
        Inl e \<Rightarrow> Inl e
      | Inr new_node' \<Rightarrow>
          if \<not> is_root new_node'
          then (case getitem d (the (parent new_node')) of
                  Inl e \<Rightarrow> Inl e
                | Inr node \<Rightarrow>
                    (case replace_child node old_node_id (identifier new_node') of
                       Inl e \<Rightarrow> Inl e
                     | Inr node' \<Rightarrow>
                         Inr (t\<lparr>nodes := AList.update (the (parent new_node')) node' d\<rparr>)))
          else Inr (t\<lparr>nodes := d\<rparr>))))"

text \<open>The identifier \<open>combine_nodes\<close> uses when none is given (line 364).\<close>

definition default_identifier :: "string \<Rightarrow> string \<Rightarrow> string" where
  "default_identifier node_id1 node_id2 = node_id1 @ ''contr'' @ node_id2"

text \<open>\<open>combine_nodes\<close> (lines 349 to 394).\<close>

definition combine_nodes ::
  "TreeStructure \<Rightarrow> string \<Rightarrow> string \<Rightarrow> string \<Rightarrow> string \<Rightarrow> py_error + TreeStructure" where
  "combine_nodes t uuid node_id1 node_id2 new_identifier =
     (case determine_parentage t node_id1 node_id2 of
        Inl e \<Rightarrow> Inl e
      | Inr (parent_id, child_id) \<Rightarrow>
     (let new_identifier =
            (if new_identifier = [] then default_identifier node_id1 node_id2
             else new_identifier)
      in case getitem (nodes t) parent_id of
        Inl e \<Rightarrow> Inl e
      | Inr parent_node \<Rightarrow>
     (let parent_parent_id = parent parent_node
      in case remove_child parent_node child_id of
        Inl e \<Rightarrow> Inl e
      | Inr parent_node \<Rightarrow>
     (let d1 = AList.update parent_id parent_node (nodes t)
      in case getitem d1 child_id of
        Inl e \<Rightarrow> Inl e
      | Inr child_node \<Rightarrow>
     (let temp = (if parent_id \<noteq> node_id1 then [child_node, parent_node]
                  else [parent_node, child_node]);
          total_children = children (temp ! 0) @ children (temp ! 1);
          the_root_id = (if is_root parent_node then Some new_identifier else root_id t)
      in case dict_pop d1 parent_id of
        Inl e \<Rightarrow> Inl e
      | Inr d2 \<Rightarrow>
     (case dict_pop d2 child_id of
        Inl e \<Rightarrow> Inl e
      | Inr d3 \<Rightarrow>
     (case add_parent (add_children (Node_init uuid [] new_identifier) total_children)
             parent_parent_id of
        Inl e \<Rightarrow> Inl e
      | Inr new_node \<Rightarrow>
          priv_replace_node
            (t\<lparr>nodes := AList.update (identifier new_node) new_node d3,
               root_id := the_root_id\<rparr>)
            new_identifier parent_id)))))))"

text \<open>
  \<open>split_node\<close> (lines 396 to 450).  The two new nodes are built by \<open>Node\<close>, each with
  its own fresh identifier for the case of an empty one.
\<close>

definition split_node ::
  "TreeStructure \<Rightarrow> string \<Rightarrow> string \<Rightarrow> string \<Rightarrow> string \<Rightarrow> string list \<Rightarrow> string \<Rightarrow> string list
     \<Rightarrow> py_error + TreeStructure" where
  "split_node t uuid1 uuid2 old_node_id node1_id neighbours1 node2_id neighbours2 =
     (case getitem (nodes t) old_node_id of
        Inl e \<Rightarrow> Inl e
      | Inr node \<Rightarrow>
     (case (if is_root node \<or> the (parent node) \<in> set neighbours1
            then Inr (node1_id, node2_id, neighbours1, neighbours2)
            else if the (parent node) \<in> set neighbours2
            then Inr (node2_id, node1_id, neighbours2, neighbours1)
            else Inl AssertionError) of
        Inl e \<Rightarrow> Inl e
      | Inr (parent_id, child_id, parent_neighbours, child_neighbours) \<Rightarrow>
     (case (if \<not> is_root node
            then (case add_parent (Node_init uuid1 [] parent_id) (parent node) of
                    Inl e \<Rightarrow> Inl e
                  | Inr pn \<Rightarrow>
                      (case list_remove parent_neighbours (the (parent node)) of
                         Inl e \<Rightarrow> Inl e
                       | Inr ns \<Rightarrow> Inr (pn, ns, root_id t)))
            else Inr (Node_init uuid1 [] parent_id, parent_neighbours, Some parent_id)) of
        Inl e \<Rightarrow> Inl e
      | Inr (parent_node, parent_neighbours, the_root_id) \<Rightarrow>
     (let parent_node = add_child (add_children parent_node parent_neighbours) child_id
      in case add_parent (Node_init uuid2 [] child_id) (Some parent_id) of
        Inl e \<Rightarrow> Inl e
      | Inr child_node \<Rightarrow>
     (let child_node = add_children child_node child_neighbours
      in case dict_pop (nodes t) old_node_id of
        Inl e \<Rightarrow> Inl e
      | Inr d1 \<Rightarrow>
     (let d2 = AList.update parent_id parent_node d1;
          d3 = AList.update child_id child_node d2
      in case priv_replace_node (t\<lparr>nodes := d3, root_id := the_root_id\<rparr>) child_id child_id of
        Inl e \<Rightarrow> Inl e
      | Inr t4 \<Rightarrow> priv_replace_node t4 parent_id old_node_id))))))"

section \<open>A small tree\<close>

text \<open>
  The tree of the tests: a root with the children \<open>c1\<close> and \<open>c2\<close>, in this order, and
  the tensor nodes of the two leaves.
\<close>

definition small_tree :: TreeStructure where
  "small_tree =
     \<lparr>nodes =
        [(''root'', \<lparr>identifier = ''root'', tag = ''root'', parent = None,
                     children = [''c1'', ''c2'']\<rparr>),
         (''c1'', \<lparr>identifier = ''c1'', tag = ''c1'', parent = Some ''root'', children = []\<rparr>),
         (''c2'', \<lparr>identifier = ''c2'', tag = ''c2'', parent = Some ''root'', children = []\<rparr>)],
      root_id = Some ''root''\<rparr>"


section \<open>Sequences of calls and the single root\<close>

text \<open>
  The identifiers of the nodes without a parent, in the order of the dictionary, and the
  property that there is exactly one of them and that it is \<open>root_id\<close>.
\<close>

definition parentless :: "TreeStructure \<Rightarrow> string list" where
  "parentless t = map (\<lambda>(k, n). identifier n) (filter (\<lambda>(k, n). is_root n) (nodes t))"

definition single_root :: "TreeStructure \<Rightarrow> bool" where
  "single_root t = (case root_id t of None \<Rightarrow> False | Some r \<Rightarrow> parentless t = [r])"

text \<open>
  The calls of the public mutators, with their arguments; \<open>uuid\<close> arguments stand for
  the identifiers \<open>Node.__init__\<close> draws when it is given none.
\<close>

datatype call =
    AddRoot Node
  | AddChildToParent Node string
  | AddParentToRoot Node
  | CombineNodes string string string string
  | SplitNode string string string string "string list" string "string list"

fun apply_call :: "TreeStructure \<Rightarrow> call \<Rightarrow> py_error + TreeStructure" where
  "apply_call t (AddRoot n) = add_root t n"
| "apply_call t (AddChildToParent n parent_id) = add_child_to_parent t n parent_id"
| "apply_call t (AddParentToRoot n) = add_parent_to_root t n"
| "apply_call t (CombineNodes uuid node_id1 node_id2 new_identifier) =
     combine_nodes t uuid node_id1 node_id2 new_identifier"
| "apply_call t (SplitNode uuid1 uuid2 old_node_id node1_id neighbours1 node2_id neighbours2) =
     split_node t uuid1 uuid2 old_node_id node1_id neighbours1 node2_id neighbours2"

text \<open>
  The calls whose arguments are as the docstrings expect them.  A node handed to the tree
  is fresh: it has no parent and no children.  The identifier of a combined node is one
  of the two combined identifiers or is new to the tree.  The two identifiers of a split
  are not empty, differ, and each is the identifier of the split node or is new to the
  tree; the two lists of neighbours have no identifier twice, neither alone nor together,
  and name neighbours of the split node only.
\<close>

definition detached :: "Node \<Rightarrow> bool" where
  "detached n = (parent n = None \<and> children n = [])"

fun admissible :: "TreeStructure \<Rightarrow> call \<Rightarrow> bool" where
  "admissible t (AddRoot n) = detached n"
| "admissible t (AddChildToParent n parent_id) = detached n"
| "admissible t (AddParentToRoot n) = detached n"
| "admissible t (CombineNodes uuid node_id1 node_id2 new_identifier) =
     (let n = (if new_identifier = [] then default_identifier node_id1 node_id2
               else new_identifier)
      in n = node_id1 \<or> n = node_id2 \<or> \<not> contains t n)"
| "admissible t (SplitNode uuid1 uuid2 old_node_id node1_id neighbours1 node2_id neighbours2) =
     (node1_id \<noteq> [] \<and> node2_id \<noteq> [] \<and> node1_id \<noteq> node2_id
      \<and> (node1_id = old_node_id \<or> \<not> contains t node1_id)
      \<and> (node2_id = old_node_id \<or> \<not> contains t node2_id)
      \<and> distinct (neighbours1 @ neighbours2)
      \<and> (case map_of (nodes t) old_node_id of
            None \<Rightarrow> True
          | Some node \<Rightarrow> set (neighbours1 @ neighbours2) \<subseteq> set (neighbouring_nodes node)))"

text \<open>The trees built from the empty tree by admissible calls that return.\<close>

inductive reachable :: "TreeStructure \<Rightarrow> bool" where
  start: "reachable empty_tree"
| step: "reachable t \<Longrightarrow> admissible t c \<Longrightarrow> apply_call t c = Inr t' \<Longrightarrow> reachable t'"

text \<open>
  The invariant behind the single root: the keys of the dictionary are distinct,
  \<open>root_id\<close> is one of them, every node is stored under its identifier, has no child
  twice, has no parent exactly when it is the root, and is the parent of each of its
  children.
\<close>

definition node_ok :: "TreeStructure \<Rightarrow> string \<Rightarrow> Node \<Rightarrow> bool" where
  "node_ok t k n =
     (identifier n = k \<and> distinct (children n)
      \<and> (parent n = None \<longleftrightarrow> root_id t = Some k)
      \<and> (\<forall>c \<in> set (children n). \<exists>cn. map_of (nodes t) c = Some cn \<and> parent cn = Some k))"

definition well_formed :: "TreeStructure \<Rightarrow> bool" where
  "well_formed t =
     (distinct (map fst (nodes t))
      \<and> (\<exists>r. root_id t = Some r \<and> r \<in> dom (map_of (nodes t)))
      \<and> (\<forall>k n. map_of (nodes t) k = Some n \<longrightarrow> node_ok t k n))"

text \<open>
  What the loops of the mutators do to the dictionary, seen as a map: \<open>reparent\<close> is the
  loop of \<open>_replace_node\<close> and of \<open>add_parent_to_root\<close> over the children,
  \<open>renamed\<close> is \<open>replace_child\<close> on a list of children, \<open>combined_children\<close> is the
  list \<open>total_children\<close> of \<open>combine_nodes\<close>, and \<open>split_start\<close> is the tree of
  \<open>split_node\<close> before its two calls of \<open>_replace_node\<close>.
\<close>

definition reparent :: "string \<Rightarrow> string list \<Rightarrow> (string \<rightharpoonup> Node) \<Rightarrow> (string \<rightharpoonup> Node)" where
  "reparent n cs m =
     (\<lambda>k. if k \<in> set cs then map_option (\<lambda>x. x\<lparr>parent := Some n\<rparr>) (m k) else m k)"

definition renamed :: "string \<Rightarrow> string \<Rightarrow> string list \<Rightarrow> string list" where
  "renamed a b xs = map (\<lambda>z. if z = a then b else z) xs"

definition combined_children :: "string \<Rightarrow> string \<Rightarrow> string \<Rightarrow> Node \<Rightarrow> Node \<Rightarrow> string list" where
  "combined_children id1 p c pn cn =
     (if p \<noteq> id1 then children cn @ remove1 c (children pn)
      else remove1 c (children pn) @ children cn)"

definition split_start ::
  "TreeStructure \<Rightarrow> string \<Rightarrow> Node \<Rightarrow> string \<Rightarrow> string \<Rightarrow> string list \<Rightarrow> string list \<Rightarrow> TreeStructure" where
  "split_start t old node P C pall cnb =
     t\<lparr>nodes :=
          AList.update C \<lparr>identifier = C, tag = C, parent = Some P, children = cnb\<rparr>
            (AList.update P
               \<lparr>identifier = P, tag = P, parent = parent node,
                  children = (case parent node of None \<Rightarrow> pall | Some g \<Rightarrow> remove1 g pall) @ [C]\<rparr>
               (AList.delete old (nodes t))),
        root_id := (if parent node = None then Some P else root_id t)\<rparr>"

text \<open>A chain \<open>r\<close>, \<open>g\<close>, \<open>p\<close>, \<open>c\<close>, each the only child of the one before.\<close>

definition chain_tree :: TreeStructure where
  "chain_tree =
     \<lparr>nodes =
        [(''r'', \<lparr>identifier = ''r'', tag = ''r'', parent = None, children = [''g'']\<rparr>),
         (''g'', \<lparr>identifier = ''g'', tag = ''g'', parent = Some ''r'', children = [''p'']\<rparr>),
         (''p'', \<lparr>identifier = ''p'', tag = ''p'', parent = Some ''g'', children = [''c'']\<rparr>),
         (''c'', \<lparr>identifier = ''c'', tag = ''c'', parent = Some ''p'', children = []\<rparr>)],
      root_id = Some ''r''\<rparr>"

text \<open>
  The trees built from the empty tree by calls that return, whatever their arguments.
\<close>

inductive built :: "TreeStructure \<Rightarrow> bool" where
  start: "built empty_tree"
| step: "built t \<Longrightarrow> apply_call t c = Inr t' \<Longrightarrow> built t'"

text \<open>The small tree after its leaf \<open>c1\<close> is split into \<open>c1\<close> and a new child \<open>link\<close>.\<close>

definition split_tree :: TreeStructure where
  "split_tree =
     \<lparr>nodes =
        [(''root'', \<lparr>identifier = ''root'', tag = ''root'', parent = None,
                     children = [''c1'', ''c2'']\<rparr>),
         (''c2'', \<lparr>identifier = ''c2'', tag = ''c2'', parent = Some ''root'', children = []\<rparr>),
         (''c1'', \<lparr>identifier = ''c1'', tag = ''c1'', parent = Some ''root'',
                   children = [''link'']\<rparr>),
         (''link'', \<lparr>identifier = ''link'', tag = ''link'', parent = Some ''c1'',
                     children = []\<rparr>)],
      root_id = Some ''root''\<rparr>"

text \<open>
  Three trees the mutators return: a root added with a parent already set, the small
  tree after a split of \<open>c1\<close> that names the parent \<open>root\<close> in both lists of
  neighbours, and the chain after \<open>p\<close> and \<open>c\<close> are combined under the identifier of
  the root.
\<close>

definition attached_node :: Node where
  "attached_node = \<lparr>identifier = ''a'', tag = ''a'', parent = Some ''b'', children = []\<rparr>"

definition attached_tree :: TreeStructure where
  "attached_tree = \<lparr>nodes = [(''a'', attached_node)], root_id = Some ''a''\<rparr>"

definition twice_split_tree :: TreeStructure where
  "twice_split_tree =
     \<lparr>nodes =
        [(''root'', \<lparr>identifier = ''root'', tag = ''root'', parent = Some ''a2'',
                     children = [''a1'', ''c2'']\<rparr>),
         (''c2'', \<lparr>identifier = ''c2'', tag = ''c2'', parent = Some ''root'', children = []\<rparr>),
         (''a1'', \<lparr>identifier = ''a1'', tag = ''a1'', parent = Some ''root'',
                   children = [''a2'']\<rparr>),
         (''a2'', \<lparr>identifier = ''a2'', tag = ''a2'', parent = Some ''a1'',
                   children = [''root'']\<rparr>)],
      root_id = Some ''root''\<rparr>"

definition overwritten_tree :: TreeStructure where
  "overwritten_tree =
     \<lparr>nodes =
        [(''r'', \<lparr>identifier = ''r'', tag = ''r'', parent = Some ''g'', children = []\<rparr>),
         (''g'', \<lparr>identifier = ''g'', tag = ''g'', parent = Some ''r'', children = [''r'']\<rparr>)],
      root_id = Some ''r''\<rparr>"

section \<open>The update path planner (tdvp.py)\<close>

text \<open>
  Modelled from the spec: the module \<open>tdvp.py\<close> with the class \<open>TDVPAlgorithm\<close>, the
  state container \<open>ttns.py\<close> and the cache of partial trees are not among the sources;
  only their tests are.  The planner below follows section 4.1 and 4.2 of the
  specification and the paths the tests \<open>test_init_update_path\<close>,
  \<open>test_init_orth_path\<close> and \<open>test_find_caching_path\<close> expect on the tree of three
  nodes and on the tree of eight nodes.  The tree topology is a node identifier with the
  list of the subtrees of its children, in the order the children are stored.
\<close>

datatype topology = Topology string "topology list"

fun topology_id :: "topology \<Rightarrow> string" where
  "topology_id (Topology n cs) = n"















text \<open>
  The two trees of the tests: a root with the children \<open>c1\<close> and \<open>c2\<close>, and the tree
  of eight sites of \<open>TestTDVPInitComplicated\<close>.
\<close>

definition chain3 :: topology where
  "chain3 = Topology ''root'' [Topology ''c1'' [], Topology ''c2'' []]"


text \<open>
  The order the specification asks of the update path in general: every node of the
  path comes after all its children.  \<open>children_of\<close> reads the children of a node
  off the topology; \<open>seen\<close> are the nodes visited so far.
\<close>

fun children_of :: "topology \<Rightarrow> string \<Rightarrow> string list" where
  "children_of (Topology n cs) x =
     (if n = x then map topology_id cs else concat (map (\<lambda>c. children_of c x) cs))"

fun children_first_from :: "topology \<Rightarrow> string list \<Rightarrow> string list \<Rightarrow> bool" where
  "children_first_from t seen [] = True"
| "children_first_from t seen (x # xs) =
     (list_all (\<lambda>c. c \<in> set seen) (children_of t x) \<and> children_first_from t (x # seen) xs)"


section \<open>The TDVP engine (tdvp.py)\<close>

text \<open>
  Modelled from the spec: the cache of partial trees (section 4.3), a dictionary from
  ordered pairs of node identifiers to tensors; \<open>get_entry\<close> fails with a lookup
  error on a missing pair, \<open>add_entry\<close> inserts or overwrites.
\<close>

type_synonym cache = "((string \<times> string) \<times> ndarray) list"

definition get_entry :: "cache \<Rightarrow> string \<Rightarrow> string \<Rightarrow> py_error + ndarray" where
  "get_entry c a b = (case map_of c (a, b) of None \<Rightarrow> Inl KeyError | Some v \<Rightarrow> Inr v)"

definition add_entry :: "cache \<Rightarrow> string \<Rightarrow> string \<Rightarrow> ndarray \<Rightarrow> cache" where
  "add_entry c a b v = AList.update (a, b) v c"

definition contains_entry :: "cache \<Rightarrow> string \<Rightarrow> string \<Rightarrow> bool" where
  "contains_entry c a b = ((a, b) \<in> set (map fst c))"

text \<open>
  Modelled from the spec: the state container (section 2 and 6): one tensor per node
  and the identifier of the orthogonality center.
\<close>

record TTNS =
  topology :: topology
  tensors :: "(string \<times> ndarray) list"
  orthogonality_center_id :: "string option"

text \<open>
  Modelled from the spec: the engine, a \<open>TimeEvolution\<close> with the Hamiltonian, the two
  paths computed at construction and the cache.
\<close>

record ('h, 'op) TDVPAlgorithm = "(TTNS, 'op) TimeEvolution" +
  hamiltonian :: 'h
  update_path :: "string list"
  orthogonalization_path :: "string list list"
  partial_tree_cache :: cache

text \<open>
  Modelled from the spec: the numerical operations the engine consumes (section 6),
  taken as parameters: the action of the matrix exponential, the move of the
  orthogonality center to a neighbour, the contraction of a partial tree before and
  after a split, the two effective Hamiltonians (section 4.4), the QR split of a node
  towards a neighbour under a link identifier, and the contraction of the link tensor
  into the next node.  Each returns its result or raises.
\<close>

record 'h kernels =
  fast_exp_action :: "ndarray \<Rightarrow> ndarray \<Rightarrow> py_error + ndarray"
  move_orthogonalization_center :: "TTNS \<Rightarrow> string \<Rightarrow> py_error + TTNS"
  contract_any :: "string \<Rightarrow> string \<Rightarrow> TTNS \<Rightarrow> 'h \<Rightarrow> cache \<Rightarrow> py_error + ndarray"
  contract_after_split :: "string \<Rightarrow> string \<Rightarrow> TTNS \<Rightarrow> 'h \<Rightarrow> cache \<Rightarrow> py_error + ndarray"
  effective_site_hamiltonian :: "TTNS \<Rightarrow> 'h \<Rightarrow> cache \<Rightarrow> string \<Rightarrow> py_error + ndarray"
  effective_link_hamiltonian ::
    "TTNS \<Rightarrow> 'h \<Rightarrow> cache \<Rightarrow> string \<Rightarrow> string \<Rightarrow> py_error + ndarray"
  split_node_qr :: "TTNS \<Rightarrow> string \<Rightarrow> string \<Rightarrow> string \<Rightarrow> py_error + TTNS"
  contract_link :: "TTNS \<Rightarrow> string \<Rightarrow> string \<Rightarrow> py_error + TTNS"

text \<open>
  The methods of the engine change the engine in place.  A call gives the exception it
  raised, if any, and the engine as the call left it.
\<close>

type_synonym ('h, 'op) outcome = "py_error option \<times> ('h, 'op) TDVPAlgorithm"

text \<open>
  Modelled from the spec: \<open>update_tree_cache\<close>: the entry for the pair is computed
  from the present state and cache and overwrites the old one (section 4.3).
\<close>

definition update_tree_cache ::
  "'h kernels \<Rightarrow> ('h, 'op) TDVPAlgorithm \<Rightarrow> string \<Rightarrow> string \<Rightarrow> ('h, 'op) outcome" where
  "update_tree_cache K e node_id next_node_id =
     (case contract_any K node_id next_node_id (state e) (hamiltonian e) (partial_tree_cache e) of
        Inl err \<Rightarrow> (Some err, e)
      | Inr v \<Rightarrow>
          (None, e\<lparr>partial_tree_cache :=
                     add_entry (partial_tree_cache e) node_id next_node_id v\<rparr>))"

text \<open>
  Modelled from the spec: the loop of \<open>_move_orth_and_update_cache_for_path\<close> over
  the nodes after the first: the center moves to the node, then the cache entry from the
  previous node to it is updated.
\<close>

fun move_along ::
  "'h kernels \<Rightarrow> ('h, 'op) TDVPAlgorithm \<Rightarrow> string \<Rightarrow> string list \<Rightarrow> ('h, 'op) outcome" where
  "move_along K e previous [] = (None, e)"
| "move_along K e previous (node_id # rest) =
     (case move_orthogonalization_center K (state e) node_id of
        Inl err \<Rightarrow> (Some err, e)
      | Inr s \<Rightarrow>
          (case update_tree_cache K (e\<lparr>state := s\<rparr>) previous node_id of
             (Some err, e') \<Rightarrow> (Some err, e')
           | (None, e') \<Rightarrow> move_along K e' node_id rest))"

text \<open>
  Modelled from the spec: \<open>_move_orth_and_update_cache_for_path\<close> (section 4.5, step
  6, and the error conditions): an empty path is a no-op; otherwise the orthogonality
  center has to be the first node of the path, or the call fails with the assertion
  error the tests expect.
\<close>

definition move_orth_and_update_cache_for_path ::
  "'h kernels \<Rightarrow> ('h, 'op) TDVPAlgorithm \<Rightarrow> string list \<Rightarrow> ('h, 'op) outcome" where
  "move_orth_and_update_cache_for_path K e path =
     (case path of
        [] \<Rightarrow> (None, e)
      | first # rest \<Rightarrow>
          if orthogonality_center_id (state e) \<noteq> Some first then (Some AssertionError, e)
          else move_along K e first rest)"

text \<open>Modelled from the spec: the assignment \<open>state.tensors[node_id] = new\<close>.\<close>

definition set_tensor ::
  "('h, 'op) TDVPAlgorithm \<Rightarrow> string \<Rightarrow> ndarray \<Rightarrow> ('h, 'op) TDVPAlgorithm" where
  "set_tensor e node_id new =
     e\<lparr>state := (state e)\<lparr>tensors := AList.update node_id new (tensors (state e))\<rparr>\<rparr>"

text \<open>
  Modelled from the spec: \<open>_update_site\<close> (section 4.5, step 1, and the error
  conditions): the orthogonality center has to be at the node; the tensor of the node is
  evolved forward in time with the effective site Hamiltonian.
\<close>

definition update_site ::
  "'h kernels \<Rightarrow> ('h, 'op) TDVPAlgorithm \<Rightarrow> string \<Rightarrow> ('h, 'op) outcome" where
  "update_site K e node_id =
     (if orthogonality_center_id (state e) \<noteq> Some node_id then (Some AssertionError, e)
      else case effective_site_hamiltonian K (state e) (hamiltonian e) (partial_tree_cache e)
                  node_id of
        Inl err \<Rightarrow> (Some err, e)
      | Inr h \<Rightarrow>
          (case map_of (tensors (state e)) node_id of
             None \<Rightarrow> (Some KeyError, e)
           | Some psi \<Rightarrow>
               (case time_evolve (fast_exp_action K) psi h (time_step_size e) True of
                  Inl err \<Rightarrow> (Some err, e)
                | Inr new \<Rightarrow> (None, set_tensor e node_id new))))"

text \<open>
  Modelled from the spec: the identifier of the link tensor between two nodes,
  ``a deterministic link identifier derived from (current, next)''.
\<close>

definition create_link_id :: "string \<Rightarrow> string \<Rightarrow> string" where
  "create_link_id node_id next_node_id = ''link_'' @ node_id @ ''_with_'' @ next_node_id"

text \<open>Modelled from the spec: \<open>_split_updated_site\<close> (section 4.5, step 2).\<close>

definition split_updated_site ::
  "'h kernels \<Rightarrow> ('h, 'op) TDVPAlgorithm \<Rightarrow> string \<Rightarrow> string \<Rightarrow> ('h, 'op) outcome" where
  "split_updated_site K e node_id next_node_id =
     (case split_node_qr K (state e) node_id next_node_id
             (create_link_id node_id next_node_id) of
        Inl err \<Rightarrow> (Some err, e)
      | Inr s \<Rightarrow> (None, e\<lparr>state := s\<rparr>))"

text \<open>Modelled from the spec: \<open>_update_cache_after_split\<close> (section 4.5, step 3).\<close>

definition update_cache_after_split ::
  "'h kernels \<Rightarrow> ('h, 'op) TDVPAlgorithm \<Rightarrow> string \<Rightarrow> string \<Rightarrow> ('h, 'op) outcome" where
  "update_cache_after_split K e node_id next_node_id =
     (case contract_after_split K node_id next_node_id (state e) (hamiltonian e)
             (partial_tree_cache e) of
        Inl err \<Rightarrow> (Some err, e)
      | Inr v \<Rightarrow>
          (None, e\<lparr>partial_tree_cache :=
                     add_entry (partial_tree_cache e) node_id next_node_id v\<rparr>))"

text \<open>
  Modelled from the spec: \<open>_time_evolve_link_tensor\<close> (section 4.5, step 4): the link
  tensor is evolved backward in time with the effective link Hamiltonian.
\<close>

definition time_evolve_link_tensor ::
  "'h kernels \<Rightarrow> ('h, 'op) TDVPAlgorithm \<Rightarrow> string \<Rightarrow> string \<Rightarrow> ('h, 'op) outcome" where
  "time_evolve_link_tensor K e node_id next_node_id =
     (let link_id = create_link_id node_id next_node_id
      in case effective_link_hamiltonian K (state e) (hamiltonian e) (partial_tree_cache e)
                node_id next_node_id of
        Inl err \<Rightarrow> (Some err, e)
      | Inr h \<Rightarrow>
          (case map_of (tensors (state e)) link_id of
             None \<Rightarrow> (Some KeyError, e)
           | Some link_tensor \<Rightarrow>
               (case time_evolve (fast_exp_action K) link_tensor h (time_step_size e) False of
                  Inl err \<Rightarrow> (Some err, e)
                | Inr new \<Rightarrow> (None, set_tensor e link_id new))))"

text \<open>
  Modelled from the spec: \<open>_update_link\<close> (section 4.5, steps 2 to 5, and the error
  conditions): the orthogonality center has to be at the node; the node is split, the
  cache is updated, the link tensor is evolved and contracted into the next node, which
  becomes the orthogonality center.
\<close>

definition update_link ::
  "'h kernels \<Rightarrow> ('h, 'op) TDVPAlgorithm \<Rightarrow> string \<Rightarrow> string \<Rightarrow> ('h, 'op) outcome" where
  "update_link K e node_id next_node_id =
     (if orthogonality_center_id (state e) \<noteq> Some node_id then (Some AssertionError, e)
      else case split_updated_site K e node_id next_node_id of
        (Some err, e1) \<Rightarrow> (Some err, e1)
      | (None, e1) \<Rightarrow>
          (case update_cache_after_split K e1 node_id next_node_id of
             (Some err, e2) \<Rightarrow> (Some err, e2)
           | (None, e2) \<Rightarrow>
               (case time_evolve_link_tensor K e2 node_id next_node_id of
                  (Some err, e3) \<Rightarrow> (Some err, e3)
                | (None, e3) \<Rightarrow>
                    (case contract_link K (state e3) (create_link_id node_id next_node_id)
                            next_node_id of
                       Inl err \<Rightarrow> (Some err, e3)
                     | Inr s \<Rightarrow>
                         (None, e3\<lparr>state := s\<lparr>orthogonality_center_id :=
                                                  Some next_node_id\<rparr>\<rparr>)))))"



text \<open>
  An engine on the tree of three nodes with the orthogonality center at \<open>c1\<close>, as in
  the tests, with tensors of one entry and operations that keep the bookkeeping and no
  numerics: the exponential action returns the exponent it is given, so that the sign is
  visible in the result.
\<close>

definition unit_tensor :: ndarray where
  "unit_tensor = \<lparr>shape = [1], entries = [1]\<rparr>"

definition chain3_state :: TTNS where
  "chain3_state =
     \<lparr>topology = chain3,
      tensors = [(''root'', unit_tensor), (''c1'', unit_tensor), (''c2'', unit_tensor)],
      orthogonality_center_id = Some ''c1''\<rparr>"

definition plain_kernels :: "unit kernels" where
  "plain_kernels =
     \<lparr>fast_exp_action = (\<lambda>exponent v. Inr (v\<lparr>entries := entries exponent\<rparr>)),
      move_orthogonalization_center = (\<lambda>s n. Inr (s\<lparr>orthogonality_center_id := Some n\<rparr>)),
      contract_any = (\<lambda>a b s h c. Inr unit_tensor),
      contract_after_split = (\<lambda>a b s h c. Inr unit_tensor),
      effective_site_hamiltonian = (\<lambda>s h c n. Inr \<lparr>shape = [1, 1], entries = [2]\<rparr>),
      effective_link_hamiltonian = (\<lambda>s h c a b. Inr \<lparr>shape = [1, 1], entries = [2]\<rparr>),
      split_node_qr = (\<lambda>s a b l. Inr (s\<lparr>tensors := AList.update l unit_tensor (tensors s)\<rparr>)),
      contract_link = (\<lambda>s l n. Inr (s\<lparr>tensors := AList.delete l (tensors s)\<rparr>))\<rparr>"

definition chain3_engine :: "(unit, unit) TDVPAlgorithm" where
  "chain3_engine =
     \<lparr>initial_state = chain3_state, state = chain3_state, time_step_size = 1, final_time = 1,
      num_time_steps = 1, operators = [], results = None, hamiltonian = (),
      update_path = [''c1'', ''root'', ''c2''],
      orthogonalization_path = [[''root''], [''c2'']],
      partial_tree_cache = [((''c2'', ''root''), unit_tensor), ((''root'', ''c1''), unit_tensor)]\<rparr>"


section \<open>Construction fails fast\<close>

lemma read_splitting_bad_item:
  "\<exists>item \<in> set items. \<not> isinstance_int item \<and> \<not> isinstance_tuple item
     \<Longrightarrow> read_splitting acc items = Inl TypeError"
  by (induction items arbitrary: acc) auto

text \<open>
  Claim C8.  A \<open>TimeEvolution\<close> with a time step size or a final time that is not
  positive is refused with \<open>ValueError\<close> by the constructor, so no object exists on
  which a time step could run; a \<open>TrotterSplitting\<close> whose splitting list holds an item
  that is neither an \<open>int\<close> nor a \<open>tuple\<close> is refused with \<open>TypeError\<close> by its
  constructor, whatever the other items and the swap lists are.
\<close>

theorem construction_fails_fast:
  "(step_size \<le> 0 \<or> fin_time \<le> 0 \<longrightarrow>
      TimeEvolution_init init_state step_size fin_time ops = Inl ValueError)
   \<and> ((\<exists>item \<in> set items. \<not> isinstance_int item \<and> \<not> isinstance_tuple item) \<longrightarrow>
      TrotterSplitting_init tps (Some items) sb sa = Inl TypeError)"
  by (simp add: TimeEvolution_init_def TrotterSplitting_init_def read_splitting_bad_item)

theorem construction_fails_fast_witness:
  "TimeEvolution_init () 0 1 (Many []) = (Inl ValueError :: py_error + (unit, unit) TimeEvolution)
   \<and> TimeEvolution_init () (1/10) (-1) (Single ()) = (Inl ValueError :: py_error + (unit, unit) TimeEvolution)
   \<and> TrotterSplitting_init [()] (Some [PyInt 0, PyTuple [PyInt 0, PyFloat (1/2)], PyStr ''0''])
        None None = Inl TypeError"
  using construction_fails_fast [of 0 1 "()" "Many []" "[PyInt 0, PyTuple [PyInt 0, PyFloat (1/2)], PyStr ''0'']" "[()]" None None]
        construction_fails_fast [of "1/10" "-1" "()" "Single ()" "[PyStr ''0'']" "[()]" None None]
  by simp

section \<open>The default swap list\<close>

text \<open>
  Claim C10.  \<open>SWAPlist()\<close> and \<open>SWAPlist(None)\<close> raise \<open>TypeError\<close>: the loop over
  \<open>swap_list\<close> comes before the test that would replace \<open>None\<close> by the empty list.  A
  \<open>TrotterStep\<close> built with \<open>swaps_before\<close> or \<open>swaps_after\<close> left at \<open>None\<close> calls
  \<open>SWAPlist()\<close> and raises the same error; no empty swap list is produced.
\<close>

theorem SWAPlist_default_raises:
  "SWAPlist_init None = Inl TypeError
   \<and> TrotterStep_init op fac None sa = Inl TypeError
   \<and> TrotterStep_init op fac (Some before) None = Inl TypeError"
  by (simp add: SWAPlist_init_def TrotterStep_init_def py_iter_def)

section \<open>Time evolution of a local tensor\<close>





section \<open>The unfinished transfer tensor\<close>

text \<open>
  Claim C9.  \<open>transfer_tensor\<close> returns \<open>None\<close> for every node and every optional tag and
  identifier: it computes the conjugated node, the new identifier and the new tag, and
  ends without a \<open>return\<close>.  No transfer matrix is produced.
\<close>

theorem transfer_tensor_returns_None:
  "transfer_tensor node new_tag new_identifier = None"
  by (simp add: transfer_tensor_def Let_def)

section \<open>Pairs of nodes that are not connected\<close>



section \<open>The single root is preserved\<close>

lemma getitem_Inr [simp]: "getitem d k = Inr v \<longleftrightarrow> map_of d k = Some v"
  by (simp add: getitem_def split: option.splits)

lemma dict_pop_Inr [simp]:
  "dict_pop d k = Inr d' \<longleftrightarrow> k \<in> dom (map_of d) \<and> d' = AList.delete k d"
  by (auto simp: dict_pop_def dom_map_of_conv_image_fst)

lemma list_remove_Inr [simp]:
  "list_remove xs x = Inr ys \<longleftrightarrow> x \<in> set xs \<and> ys = remove1 x xs"
  by (auto simp: list_remove_def)

lemma add_parent_Inr [simp]:
  "add_parent n p = Inr n' \<longleftrightarrow> parent n = None \<and> n' = n\<lparr>parent := p\<rparr>"
  by (auto simp: add_parent_def)

lemma contains_dom: "contains t k \<longleftrightarrow> k \<in> dom (map_of (nodes t))"
  by (simp add: contains_def dom_map_of_conv_image_fst)

lemma filter_unique:
  "distinct (map fst d) \<Longrightarrow> map_of d r = Some v \<Longrightarrow> (\<And>k n. (k, n) \<in> set d \<Longrightarrow> P n \<longleftrightarrow> k = r)
     \<Longrightarrow> filter (\<lambda>(k, n). P n) d = [(r, v)]"
proof (induction d)
  case Nil
  then show ?case by simp
next
  case (Cons a d)
  obtain k n where a: "a = (k, n)" by (cases a)
  show ?case
  proof (cases "k = r")
    case True
    with Cons.prems a have v: "n = v" by simp
    have "filter (\<lambda>(k, n). P n) d = []"
    proof -
      have "\<And>k' n'. (k', n') \<in> set d \<Longrightarrow> \<not> P n'"
      proof -
        fix k' n' assume in_d: "(k', n') \<in> set d"
        with Cons.prems(1) a True have "k' \<noteq> r" by force
        with Cons.prems(3) [of k' n'] in_d show "\<not> P n'" by simp
      qed
      then show ?thesis by (auto simp: filter_empty_conv)
    qed
    with Cons.prems(3) [of k n] a True v show ?thesis by simp
  next
    case False
    with Cons.prems a have "map_of d r = Some v" by simp
    moreover from Cons.prems(1) have "distinct (map fst d)" by simp
    ultimately have "filter (\<lambda>(k, n). P n) d = [(r, v)]"
      using Cons.IH Cons.prems(3) by simp
    with Cons.prems(3) [of k n] a False show ?thesis by simp
  qed
qed

lemma well_formed_single_root: "well_formed t \<Longrightarrow> single_root t"
proof -
  assume w: "well_formed t"
  from w obtain r where r1: "root_id t = Some r" and r2: "r \<in> dom (map_of (nodes t))"
    unfolding well_formed_def by blast
  from r2 obtain rn where r3: "map_of (nodes t) r = Some rn" by blast
  from w have d: "distinct (map fst (nodes t))" unfolding well_formed_def by blast
  from w have all_ok: "\<And>k n. map_of (nodes t) k = Some n \<Longrightarrow> node_ok t k n"
    unfolding well_formed_def by blast
  have "filter (\<lambda>(k, n). is_root n) (nodes t) = [(r, rn)]"
    using d r3
  proof (rule filter_unique)
    fix k n assume "(k, n) \<in> set (nodes t)"
    with d have "map_of (nodes t) k = Some n" by (rule_tac map_of_is_SomeI)
    from all_ok [OF this] have "(parent n = None) = (root_id t = Some k)"
      unfolding node_ok_def by blast
    with r1 show "is_root n \<longleftrightarrow> k = r"
      unfolding is_root_def by auto
  qed
  moreover from all_ok [OF r3] have "identifier rn = r"
    unfolding node_ok_def by blast
  ultimately show ?thesis
    by (simp add: single_root_def parentless_def r1)
qed

lemma update_existing_keys:
  "map_of d k = Some v \<Longrightarrow> map fst (AList.update k v' d) = map fst d"
  by (simp add: AList.update_keys dom_map_of_conv_image_fst [symmetric] domI)

lemma reparent_children_Inr:
  "reparent_children n cs d = Inr d' \<Longrightarrow>
     set cs \<subseteq> dom (map_of d) \<and> map fst d' = map fst d \<and> map_of d' = reparent n cs (map_of d)"
proof (induction cs arbitrary: d)
  case Nil
  then show ?case by (simp add: reparent_def)
next
  case (Cons c cs)
  from Cons.prems obtain node where node: "map_of d c = Some node"
    by (auto split: sum.splits)
  define node' where "node' = node\<lparr>parent := Some n\<rparr>"
  define d1 where "d1 = AList.update c node' d"
  from Cons.prems node have rec: "reparent_children n cs d1 = Inr d'"
    by (auto simp: d1_def node'_def remove_parent_def add_parent_def split: sum.splits)
  from Cons.IH [OF rec] have ih: "set cs \<subseteq> dom (map_of d1)" "map fst d' = map fst d1"
    "map_of d' = reparent n cs (map_of d1)" by auto
  have m1: "map_of d1 = (map_of d)(c \<mapsto> node')"
    by (simp add: d1_def AList.update_conv')
  have k1: "map fst d1 = map fst d"
    unfolding d1_def using node by (rule update_existing_keys)
  have "map_of d' = reparent n (c # cs) (map_of d)"
  proof
    fix k
    show "map_of d' k = reparent n (c # cs) (map_of d) k"
      using node by (auto simp: ih(3) m1 reparent_def node'_def)
  qed
  moreover have "set (c # cs) \<subseteq> dom (map_of d)"
    using ih(1) node by (auto simp: m1)
  ultimately show ?case using ih(2) k1 by simp
qed

lemma list_index_Inr:
  "list_index xs x = Inr i \<Longrightarrow>
     i < length xs \<and> xs ! i = x
     \<and> (distinct xs \<longrightarrow> xs[i := b] = map (\<lambda>y. if y = x then b else y) xs)"
proof (induction xs arbitrary: i)
  case Nil
  then show ?case by simp
next
  case (Cons y ys)
  show ?case
  proof (cases "y = x")
    case True
    with Cons.prems have "i = 0" by simp
    moreover have "x \<notin> set ys \<Longrightarrow> map (\<lambda>y. if y = x then b else y) ys = ys"
      by (induction ys) auto
    ultimately show ?thesis using True by auto
  next
    case False
    with Cons.prems obtain j where j: "list_index ys x = Inr j" "i = Suc j"
      by (auto split: sum.splits)
    from Cons.IH [OF j(1)] j(2) False show ?thesis by auto
  qed
qed

lemma replace_child_Inr:
  "replace_child q a b = Inr q' \<Longrightarrow>
     identifier q' = identifier q \<and> parent q' = parent q
     \<and> (a = b \<and> q' = q
        \<or> a \<noteq> b \<and> a \<in> set (children q)
          \<and> (distinct (children q) \<longrightarrow>
               children q' = map (\<lambda>y. if y = a then b else y) (children q)))"
proof (cases "a = b")
  case True
  assume "replace_child q a b = Inr q'"
  with True show ?thesis by (simp add: replace_child_def)
next
  case False
  assume r: "replace_child q a b = Inr q'"
  with False obtain i where i: "list_index (children q) a = Inr i"
    and q': "q' = q\<lparr>children := (children q)[i := b]\<rparr>"
    by (auto simp: replace_child_def child_index_def split: sum.splits)
  from list_index_Inr [OF i, of b] have "i < length (children q)" "children q ! i = a"
    "distinct (children q) \<longrightarrow> (children q)[i := b] = map (\<lambda>y. if y = a then b else y) (children q)"
    by auto
  then show ?thesis using False q' by (auto simp: in_set_conv_nth)
qed

lemma priv_replace_node_Inr:
  assumes "priv_replace_node t nid oid = Inr t'"
  shows "\<exists>nn. map_of (nodes t) nid = Some nn
           \<and> set (children nn) \<subseteq> dom (map_of (nodes t))
           \<and> root_id t' = root_id t
           \<and> map fst (nodes t') = map fst (nodes t)
           \<and> (let m1 = reparent (identifier nn) (children nn) (map_of (nodes t));
                   nn' = the (m1 nid)
               in (case parent nn' of
                     None \<Rightarrow> map_of (nodes t') = m1
                   | Some g \<Rightarrow> \<exists>q q'. m1 g = Some q
                        \<and> replace_child q oid (identifier nn) = Inr q'
                        \<and> map_of (nodes t') = m1(g \<mapsto> q')))"
proof -
  from assms obtain nn where nn: "map_of (nodes t) nid = Some nn"
    by (auto simp: priv_replace_node_def split: sum.splits)
  from assms nn obtain d where d: "reparent_children (identifier nn) (children nn) (nodes t) = Inr d"
    by (auto simp: priv_replace_node_def split: sum.splits)
  define m1 where "m1 = reparent (identifier nn) (children nn) (map_of (nodes t))"
  from reparent_children_Inr [OF d] have rc: "set (children nn) \<subseteq> dom (map_of (nodes t))"
    "map fst d = map fst (nodes t)" "map_of d = m1" by (auto simp: m1_def)
  from nn have "m1 nid \<noteq> None" by (auto simp: m1_def reparent_def)
  then obtain nn' where nn': "m1 nid = Some nn'" by blast
  have idn: "identifier nn' = identifier nn"
    using nn nn' by (auto simp: m1_def reparent_def split: if_splits)
  show ?thesis
  proof (cases "parent nn'")
    case None
    with assms nn d nn' rc have "t' = t\<lparr>nodes := d\<rparr>"
      by (auto simp: priv_replace_node_def is_root_def split: sum.splits)
    with rc nn nn' None show ?thesis by (simp add: m1_def [symmetric])
  next
    case (Some g)
    with assms nn d nn' rc obtain q q' where q: "m1 g = Some q"
      "replace_child q oid (identifier nn') = Inr q'" "t' = t\<lparr>nodes := AList.update g q' d\<rparr>"
      by (auto simp: priv_replace_node_def is_root_def split: sum.splits)
    have "map fst (nodes t') = map fst (nodes t)"
      using q(1,3) rc(2,3) update_existing_keys [of d g q q'] by simp
    moreover have "map_of (nodes t') = m1(g \<mapsto> q')"
      using q(3) rc(3) by (simp add: AList.update_conv')
    ultimately show ?thesis
      using nn rc(1) nn' Some q idn by (auto simp: m1_def [symmetric])
  qed
qed

lemma well_formedI:
  assumes "distinct (map fst (nodes t))" "root_id t = Some r" "map_of (nodes t) r = Some rn"
    and "\<And>k n. map_of (nodes t) k = Some n \<Longrightarrow>
           identifier n = k \<and> distinct (children n) \<and> (parent n = None \<longleftrightarrow> k = r)
           \<and> (\<forall>c \<in> set (children n). \<exists>cn. map_of (nodes t) c = Some cn \<and> parent cn = Some k)"
  shows "well_formed t"
  unfolding well_formed_def node_ok_def using assms by (metis domI option.inject)

lemma well_formedD:
  assumes "well_formed t"
  shows "distinct (map fst (nodes t))"
    and "\<exists>r rn. root_id t = Some r \<and> map_of (nodes t) r = Some rn"
    and "\<And>k n. map_of (nodes t) k = Some n \<Longrightarrow> identifier n = k"
    and "\<And>k n. map_of (nodes t) k = Some n \<Longrightarrow> distinct (children n)"
    and "\<And>k n. map_of (nodes t) k = Some n \<Longrightarrow> (parent n = None \<longleftrightarrow> root_id t = Some k)"
    and "\<And>k n c. map_of (nodes t) k = Some n \<Longrightarrow> c \<in> set (children n) \<Longrightarrow>
           \<exists>cn. map_of (nodes t) c = Some cn \<and> parent cn = Some k"
  using assms unfolding well_formed_def node_ok_def by blast+

lemma well_formed_add_root:
  assumes "detached n" "add_root empty_tree n = Inr t'"
  shows "well_formed t'"
proof -
  from assms(2) have t': "t' = \<lparr>nodes = [(identifier n, n)], root_id = Some (identifier n)\<rparr>"
    by (simp add: add_root_def empty_tree_def)
  show ?thesis
    by (rule well_formedI [where r = "identifier n" and rn = n])
       (use assms(1) in \<open>auto simp: t' detached_def split: if_splits\<close>)
qed

lemma well_formed_add_root_vacuous: "well_formed t \<Longrightarrow> add_root t n = Inr t' \<Longrightarrow> False"
  unfolding well_formed_def add_root_def by (auto split: if_splits)

lemma well_formed_add_child_to_parent:
  assumes w: "well_formed t" and det: "detached child"
    and ok: "add_child_to_parent t child parent_id = Inr t'"
  shows "well_formed t'"
proof -
  define m where "m = map_of (nodes t)"
  define cid where "cid = identifier child"
  define child' where "child' = child\<lparr>parent := Some parent_id\<rparr>"
  from ok have ex: "parent_id \<in> dom m" and un: "cid \<notin> dom m"
    by (auto simp: add_child_to_parent_def ensure_existence_def ensure_uniqueness_def
          priv_add_node_def contains_dom m_def cid_def split: sum.splits if_splits)
  then obtain p where p: "m parent_id = Some p" by blast
  from ex un have ne: "parent_id \<noteq> cid" by blast
  define p' where "p' = add_child p cid"
  from ok p ne have t': "nodes t' = AList.update parent_id p'
        (AList.update cid child' (AList.update cid child (nodes t)))"
      and rt: "root_id t' = root_id t"
    by (auto simp: add_child_to_parent_def ensure_existence_def ensure_uniqueness_def
          priv_add_node_def contains_dom m_def cid_def child'_def p'_def Let_def
          AList.update_conv' split: sum.splits if_splits)
  have m': "map_of (nodes t') = m(cid \<mapsto> child', parent_id \<mapsto> p')"
    by (simp add: t' AList.update_conv' m_def)
  have dist: "distinct (map fst (nodes t'))"
    unfolding t' by (intro AList.distinct_update well_formedD(1) [OF w])
  from well_formedD(2) [OF w] obtain r rn where r: "root_id t = Some r" "m r = Some rn"
    by (auto simp: m_def)
  have rne: "r \<noteq> cid" using r(2) un by blast
  have "r \<in> dom (map_of (nodes t'))"
    using r(2) by (auto simp: m')
  then obtain rn' where rn': "map_of (nodes t') r = Some rn'" by blast
  show ?thesis
  proof (rule well_formedI [OF dist _ rn'])
    show "root_id t' = Some r" by (simp add: rt r)
  next
    fix k n assume kn: "map_of (nodes t') k = Some n"
    consider (par) "k = parent_id" | (chi) "k = cid" | (oth) "k \<noteq> parent_id" "k \<noteq> cid" by blast
    then show "identifier n = k \<and> distinct (children n) \<and> (parent n = None \<longleftrightarrow> k = r)
           \<and> (\<forall>c \<in> set (children n). \<exists>cn. map_of (nodes t') c = Some cn \<and> parent cn = Some k)"
    proof cases
      case par
      with kn have n: "n = p'" by (simp add: m')
      have pk: "map_of (nodes t) parent_id = Some p" using p by (simp add: m_def)
      have notin: "cid \<notin> set (children p)"
        using well_formedD(6) [OF w pk] un by (auto simp: m_def)
      have "\<forall>c \<in> set (children p). \<exists>cn. map_of (nodes t') c = Some cn \<and> parent cn = Some parent_id"
      proof
        fix c assume c: "c \<in> set (children p)"
        from well_formedD(6) [OF w pk c] obtain cn where cn: "m c = Some cn" "parent cn = Some parent_id"
          by (auto simp: m_def)
        with un have "c \<noteq> cid" by blast
        with cn p show "\<exists>cn. map_of (nodes t') c = Some cn \<and> parent cn = Some parent_id"
          by (auto simp: m' p'_def add_child_def)
      qed
      then show ?thesis
        using well_formedD(3,4,5) [OF w pk] notin r(1) ne
        by (auto simp: n par p'_def add_child_def m' child'_def)
    next
      case chi
      with kn ne have n: "n = child'" by (simp add: m')
      show ?thesis using det rne by (auto simp: n chi child'_def cid_def detached_def)
    next
      case oth
      with kn have kn0: "map_of (nodes t) k = Some n" by (simp add: m' m_def)
      have "\<forall>c \<in> set (children n). \<exists>cn. map_of (nodes t') c = Some cn \<and> parent cn = Some k"
      proof
        fix c assume c: "c \<in> set (children n)"
        from well_formedD(6) [OF w kn0 c] obtain cn where cn: "m c = Some cn" "parent cn = Some k"
          by (auto simp: m_def)
        with un have "c \<noteq> cid" by blast
        with cn p show "\<exists>cn. map_of (nodes t') c = Some cn \<and> parent cn = Some k"
          by (auto simp: m' p'_def add_child_def)
      qed
      then show ?thesis using well_formedD(3,4,5) [OF w kn0] r(1) by auto
    qed
  qed
qed

lemma well_formed_add_parent_to_root:
  assumes w: "well_formed t" and det: "detached new_root"
    and ok: "add_parent_to_root t new_root = Inr t'"
  shows "well_formed t'"
proof -
  define m where "m = map_of (nodes t)"
  define new_id where "new_id = identifier new_root"
  from well_formedD(2) [OF w] obtain r rn where r: "root_id t = Some r" "m r = Some rn"
    by (auto simp: m_def)
  have rn_root: "parent rn = None"
    using well_formedD(5) [of t r rn] w r by (simp add: m_def)
  from ok have un: "new_id \<notin> dom m"
    by (auto simp: add_parent_to_root_def ensure_uniqueness_def priv_add_node_def contains_dom
          m_def new_id_def split: sum.splits if_splits)
  with r(2) have ne: "r \<noteq> new_id" by blast
  define nr' where "nr' = add_child new_root r"
  define rn' where "rn' = rn\<lparr>parent := Some new_id\<rparr>"
  from ok r ne rn_root have t': "nodes t' = AList.update r rn'
        (AList.update new_id nr' (AList.update new_id new_root (nodes t)))"
      and rt: "root_id t' = Some new_id"
    by (auto simp: add_parent_to_root_def ensure_uniqueness_def priv_add_node_def contains_dom
          m_def new_id_def nr'_def rn'_def Let_def AList.update_conv'
          split: sum.splits if_splits option.splits)
  have m': "map_of (nodes t') = m(new_id \<mapsto> nr', r \<mapsto> rn')"
    by (simp add: t' AList.update_conv' m_def)
  have dist: "distinct (map fst (nodes t'))"
    unfolding t' by (intro AList.distinct_update well_formedD(1) [OF w])
  have nr: "map_of (nodes t') new_id = Some nr'"
    using ne by (simp add: m')
  show ?thesis
  proof (rule well_formedI [OF dist rt nr])
    fix k n assume kn: "map_of (nodes t') k = Some n"
    consider (new) "k = new_id" | (old) "k = r" | (oth) "k \<noteq> new_id" "k \<noteq> r" by blast
    then show "identifier n = k \<and> distinct (children n) \<and> (parent n = None \<longleftrightarrow> k = new_id)
           \<and> (\<forall>c \<in> set (children n). \<exists>cn. map_of (nodes t') c = Some cn \<and> parent cn = Some k)"
    proof cases
      case new
      with kn nr have n: "n = nr'" by simp
      show ?thesis using det
        by (auto simp: n new nr'_def add_child_def detached_def new_id_def m' rn'_def)
    next
      case old
      with kn have n: "n = rn'" by (simp add: m')
      have rk: "map_of (nodes t) r = Some rn" using r by (simp add: m_def)
      have "\<forall>c \<in> set (children rn). \<exists>cn. map_of (nodes t') c = Some cn \<and> parent cn = Some r"
      proof
        fix c assume c: "c \<in> set (children rn)"
        from well_formedD(6) [OF w rk c] obtain cn where cn: "m c = Some cn" "parent cn = Some r"
          by (auto simp: m_def)
        with un r rn_root have "c \<noteq> new_id" "c \<noteq> r" by auto
        with cn show "\<exists>cn. map_of (nodes t') c = Some cn \<and> parent cn = Some r"
          by (auto simp: m')
      qed
      then show ?thesis
        using well_formedD(3,4) [OF w rk] ne by (auto simp: n old rn'_def)
    next
      case oth
      with kn have kn0: "map_of (nodes t) k = Some n" by (simp add: m' m_def)
      have "\<forall>c \<in> set (children n). \<exists>cn. map_of (nodes t') c = Some cn \<and> parent cn = Some k"
      proof
        fix c assume c: "c \<in> set (children n)"
        from well_formedD(6) [OF w kn0 c] obtain cn where cn: "m c = Some cn" "parent cn = Some k"
          by (auto simp: m_def)
        with un r rn_root have "c \<noteq> new_id" "c \<noteq> r" by auto
        with cn show "\<exists>cn. map_of (nodes t') c = Some cn \<and> parent cn = Some k"
          by (auto simp: m')
      qed
      then show ?thesis using well_formedD(3,4,5) [OF w kn0] r(1) oth by auto
    qed
  qed
qed

lemma getitem_Some: "map_of d k = Some v \<Longrightarrow> getitem d k = Inr v"
  by (simp add: getitem_def)

lemma dict_pop_dom: "k \<in> dom (map_of d) \<Longrightarrow> dict_pop d k = Inr (AList.delete k d)"
  by (auto simp: dict_pop_def dom_map_of_conv_image_fst)

lemma determine_parentage_Inr:
  assumes "determine_parentage t id1 id2 = Inr (p, c)"
  shows "\<exists>pn cn. map_of (nodes t) p = Some pn \<and> map_of (nodes t) c = Some cn
           \<and> parent cn = Some p \<and> ((p, c) = (id1, id2) \<or> (p, c) = (id2, id1))"
  using assms
  by (auto simp: determine_parentage_def is_child_of_def is_root_def
        split: sum.splits if_splits)

lemma combine_nodes_Inr:
  assumes "combine_nodes t uuid id1 id2 newid = Inr t'"
  shows "\<exists>p c pn cn n.
           ((p, c) = (id1, id2) \<or> (p, c) = (id2, id1))
           \<and> n = (if newid = [] then default_identifier id1 id2 else newid)
           \<and> map_of (nodes t) p = Some pn \<and> map_of (nodes t) c = Some cn
           \<and> parent cn = Some p \<and> p \<noteq> c \<and> c \<in> set (children pn)
           \<and> priv_replace_node
                (t\<lparr>nodes := AList.update n
                    \<lparr>identifier = n, tag = n, parent = parent pn,
                       children = combined_children id1 p c pn cn\<rparr>
                    (AList.delete c (AList.delete p
                       (AList.update p (pn\<lparr>children := remove1 c (children pn)\<rparr>) (nodes t)))),
                 root_id := (if parent pn = None then Some n else root_id t)\<rparr>)
                n p = Inr t'"
proof -
  from assms obtain p c where dp: "determine_parentage t id1 id2 = Inr (p, c)"
    by (auto simp: combine_nodes_def split: sum.splits)
  from determine_parentage_Inr [OF dp] obtain pn cn where
    pc: "map_of (nodes t) p = Some pn" "map_of (nodes t) c = Some cn" "parent cn = Some p"
      "(p, c) = (id1, id2) \<or> (p, c) = (id2, id1)" by blast
  define n where "n = (if newid = [] then default_identifier id1 id2 else newid)"
  have nne: "n \<noteq> []" by (simp add: n_def default_identifier_def)
  define pn' where "pn' = pn\<lparr>children := remove1 c (children pn)\<rparr>"
  define d1 where "d1 = AList.update p pn' (nodes t)"
  from assms dp pc(1) have cin: "c \<in> set (children pn)"
    by (auto simp: combine_nodes_def Let_def remove_child_def split: sum.splits)
  have rc: "remove_child pn c = Inr pn'"
    using cin by (simp add: remove_child_def pn'_def list_remove_def)
  from assms dp pc(1) rc obtain cn1 where cn1: "map_of d1 c = Some cn1"
    by (auto simp: combine_nodes_def Let_def d1_def split: sum.splits)
  from assms dp pc(1) rc cn1 have pop2: "c \<in> dom (map_of (AList.delete p d1))"
    by (auto simp: combine_nodes_def Let_def d1_def [symmetric] split: sum.splits)
  then have ne: "p \<noteq> c" by (auto simp: AList.delete_conv')
  with cn1 pc(2) have cn1_eq: "cn1 = cn" by (simp add: d1_def AList.update_conv')
  have tot: "children ((if p \<noteq> id1 then [cn, pn'] else [pn', cn]) ! 0)
               @ children ((if p \<noteq> id1 then [cn, pn'] else [pn', cn]) ! Suc 0)
             = combined_children id1 p c pn cn"
    by (simp add: combined_children_def pn'_def)
  have newn: "add_parent (add_children (Node_init uuid [] n) (combined_children id1 p c pn cn))
                (parent pn)
              = Inr \<lparr>identifier = n, tag = n, parent = parent pn,
                      children = combined_children id1 p c pn cn\<rparr>"
    using nne by (simp add: add_parent_def add_children_def Node_init_def)
  have pdom: "p \<in> dom (map_of d1)" by (simp add: d1_def AList.update_conv')
  have root: "is_root pn' = (parent pn = None)" by (simp add: is_root_def pn'_def)
  from assms have "priv_replace_node
                (t\<lparr>nodes := AList.update n
                    \<lparr>identifier = n, tag = n, parent = parent pn,
                       children = combined_children id1 p c pn cn\<rparr>
                    (AList.delete c (AList.delete p d1)),
                 root_id := (if parent pn = None then Some n else root_id t)\<rparr>)
                n p = Inr t'"
    unfolding combine_nodes_def
    by (simp add: dp getitem_Some [OF pc(1)] rc Let_def d1_def [symmetric]
          getitem_Some [OF cn1] cn1_eq tot newn dict_pop_dom [OF pdom] dict_pop_dom [OF pop2]
          root n_def [symmetric] cong: if_cong)
  then show ?thesis
    using pc ne cin n_def unfolding d1_def pn'_def by blast
qed

lemma priv_replace_node_pointwise:
  assumes ok: "priv_replace_node t nid oid = Inr t'"
  shows "\<exists>nn. map_of (nodes t) nid = Some nn
           \<and> set (children nn) \<subseteq> dom (map_of (nodes t))
           \<and> root_id t' = root_id t
           \<and> map fst (nodes t') = map fst (nodes t)
           \<and> (\<forall>k x. map_of (nodes t') k = Some x \<longrightarrow>
                (\<exists>y. map_of (nodes t) k = Some y \<and> identifier x = identifier y
                   \<and> parent x = (if k \<in> set (children nn) then Some (identifier nn) else parent y)
                   \<and> (if (if nid \<in> set (children nn) then Some (identifier nn) else parent nn) = Some k
                          \<and> oid \<noteq> identifier nn
                       then oid \<in> set (children y)
                            \<and> (distinct (children y) \<longrightarrow>
                                 children x = renamed oid (identifier nn) (children y))
                       else children x = children y)))"
proof -
  from priv_replace_node_Inr [OF ok] obtain nn where
    nn: "map_of (nodes t) nid = Some nn" and sub: "set (children nn) \<subseteq> dom (map_of (nodes t))"
    and rt: "root_id t' = root_id t" and keys: "map fst (nodes t') = map fst (nodes t)"
    and fin: "(let m1 = reparent (identifier nn) (children nn) (map_of (nodes t));
                   nn' = the (m1 nid)
               in (case parent nn' of
                     None \<Rightarrow> map_of (nodes t') = m1
                   | Some g \<Rightarrow> \<exists>q q'. m1 g = Some q
                        \<and> replace_child q oid (identifier nn) = Inr q'
                        \<and> map_of (nodes t') = m1(g \<mapsto> q')))"
    by blast
  define m where "m = map_of (nodes t)"
  define m1 where "m1 = reparent (identifier nn) (children nn) m"
  define pnew where "pnew = (if nid \<in> set (children nn) then Some (identifier nn) else parent nn)"
  have m1_pt: "\<And>k z. m1 k = Some z \<Longrightarrow> \<exists>y. m k = Some y \<and> identifier z = identifier y
         \<and> children z = children y
         \<and> parent z = (if k \<in> set (children nn) then Some (identifier nn) else parent y)"
    by (auto simp: m1_def reparent_def split: if_splits)
  have pn: "parent (the (m1 nid)) = pnew"
    using nn by (auto simp: m1_def reparent_def pnew_def m_def)
  have pt: "\<exists>y. m k = Some y \<and> identifier x = identifier y
                   \<and> parent x = (if k \<in> set (children nn) then Some (identifier nn) else parent y)
                   \<and> (if pnew = Some k \<and> oid \<noteq> identifier nn
                       then oid \<in> set (children y)
                            \<and> (distinct (children y) \<longrightarrow>
                                 children x = renamed oid (identifier nn) (children y))
                       else children x = children y)"
    if kx: "map_of (nodes t') k = Some x" for k x
  proof (cases pnew)
    case None
    with fin pn have "map_of (nodes t') = m1"
      by (simp add: m1_def m_def Let_def)
    with kx have "m1 k = Some x" by simp
    from m1_pt [OF this] None show ?thesis by auto
  next
    case (Some g)
    with fin pn obtain q q' where q: "m1 g = Some q"
      "replace_child q oid (identifier nn) = Inr q'" "map_of (nodes t') = m1(g \<mapsto> q')"
      by (auto simp: m1_def m_def Let_def)
    note rc = replace_child_Inr [OF q(2)]
    show ?thesis
    proof (cases "k = g")
      case True
      with kx q(3) have x: "x = q'" by simp
      from m1_pt [OF q(1)] obtain y where y: "m g = Some y" "identifier q = identifier y"
        "children q = children y"
        "parent q = (if g \<in> set (children nn) then Some (identifier nn) else parent y)"
        by blast
      show ?thesis
        using rc y True Some x by (auto simp: renamed_def)
    next
      case False
      with kx q(3) have "m1 k = Some x" by simp
      from m1_pt [OF this] False Some show ?thesis by auto
    qed
  qed
  show ?thesis
    using nn sub rt keys pt unfolding m_def pnew_def by blast
qed

lemma dom_of_keys: "map fst d = map fst d' \<Longrightarrow> dom (map_of d) = dom (map_of d')"
  by (metis dom_map_of_conv_image_fst list.set_map)

lemma in_renamed: "ch \<in> set (renamed a b xs) \<Longrightarrow> ch = b \<and> a \<in> set xs \<or> ch \<in> set xs \<and> ch \<noteq> a"
  by (auto simp: renamed_def split: if_splits)

lemma distinct_renamed: "distinct xs \<Longrightarrow> b \<notin> set xs \<Longrightarrow> distinct (renamed a b xs)"
  by (auto simp: renamed_def distinct_map inj_on_def)

lemma well_formed_combine_nodes:
  assumes w: "well_formed t" and adm: "admissible t (CombineNodes uuid id1 id2 newid)"
    and ok: "combine_nodes t uuid id1 id2 newid = Inr t'"
  shows "well_formed t'"
proof -
  define m where "m = map_of (nodes t)"
  from combine_nodes_Inr [OF ok] obtain p c pn cn n where
    pc: "(p, c) = (id1, id2) \<or> (p, c) = (id2, id1)"
    and n: "n = (if newid = [] then default_identifier id1 id2 else newid)"
    and mp: "m p = Some pn" and mc: "m c = Some cn" and par_c: "parent cn = Some p"
    and ne: "p \<noteq> c" and cin: "c \<in> set (children pn)"
    and prn: "priv_replace_node
                (t\<lparr>nodes := AList.update n
                    \<lparr>identifier = n, tag = n, parent = parent pn,
                       children = combined_children id1 p c pn cn\<rparr>
                    (AList.delete c (AList.delete p
                       (AList.update p (pn\<lparr>children := remove1 c (children pn)\<rparr>) (nodes t)))),
                 root_id := (if parent pn = None then Some n else root_id t)\<rparr>)
                n p = Inr t'"
    unfolding m_def by blast
  define tot where "tot = combined_children id1 p c pn cn"
  define newn where "newn = \<lparr>identifier = n, tag = n, parent = parent pn, children = tot\<rparr>"
  define root' where "root' = (if parent pn = None then Some n else root_id t)"
  define t4 where "t4 = t\<lparr>nodes := AList.update n newn
                    (AList.delete c (AList.delete p
                       (AList.update p (pn\<lparr>children := remove1 c (children pn)\<rparr>) (nodes t)))),
                 root_id := root'\<rparr>"
  define m4 where "m4 = map_of (nodes t4)"
  define f where "f = map_of (nodes t')"
  have prn': "priv_replace_node t4 n p = Inr t'"
    using prn unfolding t4_def newn_def tot_def root'_def .
  have m4: "m4 = (m(p := None, c := None))(n \<mapsto> newn)"
    by (simp add: m4_def t4_def AList.update_conv' AList.delete_conv' m_def)
  have dist4: "distinct (map fst (nodes t4))"
    unfolding t4_def
    by (simp, intro AList.distinct_update AList.distinct_delete well_formedD(1) [OF w])
  have adm': "n = p \<or> n = c \<or> n \<notin> dom m"
    using adm pc n by (auto simp: contains_dom m_def Let_def)
  have listed: "\<exists>z. m ch = Some z \<and> parent z = Some k"
    if "m k = Some x" "ch \<in> set (children x)" for k x ch
    using well_formedD(6) [OF w] that unfolding m_def by blast
  have ident: "identifier x = k" if "m k = Some x" for k x
    using well_formedD(3) [OF w] that unfolding m_def by blast
  have dist: "distinct (children x)" if "m k = Some x" for k x
    using well_formedD(4) [OF w] that unfolding m_def by blast
  have rootiff: "(parent x = None) = (root_id t = Some k)" if "m k = Some x" for k x
    using well_formedD(5) [OF w] that unfolding m_def by blast
  from well_formedD(2) [OF w] obtain r rn where r: "root_id t = Some r" "m r = Some rn"
    unfolding m_def by blast
  have tot_set: "set tot = (set (children pn) - {c}) \<union> set (children cn)"
    using dist [OF mp] by (auto simp: tot_def combined_children_def)
  have tot_par: "\<exists>z. m ch = Some z \<and> (parent z = Some p \<and> ch \<noteq> c \<or> parent z = Some c)"
    if "ch \<in> set tot" for ch
    using that listed [OF mp] listed [OF mc] unfolding tot_set by blast
  have tot_dist: "distinct tot"
  proof -
    have "set (remove1 c (children pn)) \<inter> set (children cn) = {}"
    proof (rule ccontr)
      assume "set (remove1 c (children pn)) \<inter> set (children cn) \<noteq> {}"
      then obtain ch where "ch \<in> set (children pn)" "ch \<in> set (children cn)"
        by (auto dest: notin_set_remove1)
      with listed [OF mp] listed [OF mc] ne show False by fastforce
    qed
    then show ?thesis
      using dist [OF mp] dist [OF mc]
      by (auto simp: tot_def combined_children_def)
  qed
  have n_tot: "n = p \<and> parent pn \<noteq> None" if "n \<in> set tot"
  proof -
    from tot_par [OF that] obtain z where z: "m n = Some z"
      "parent z = Some p \<and> n \<noteq> c \<or> parent z = Some c" by blast
    with adm' have "n = p \<or> n = c" by blast
    with z mc par_c ne have "n = p" by auto
    with z mp show ?thesis by auto
  qed
  define pnew where "pnew = (if n \<in> set tot then Some n else parent pn)"
  have m4n: "m4 n = Some newn" by (simp add: m4)
  from priv_replace_node_pointwise [OF prn'] obtain nn where
    nn1: "m4 n = Some nn" and nn2: "set (children nn) \<subseteq> dom m4"
    and nn3: "root_id t' = root_id t4" and keys: "map fst (nodes t') = map fst (nodes t4)"
    and nn5: "\<forall>k x. f k = Some x \<longrightarrow>
                (\<exists>y. m4 k = Some y \<and> identifier x = identifier y
                   \<and> parent x = (if k \<in> set (children nn) then Some (identifier nn) else parent y)
                   \<and> (if (if n \<in> set (children nn) then Some (identifier nn) else parent nn) = Some k
                          \<and> p \<noteq> identifier nn
                       then p \<in> set (children y)
                            \<and> (distinct (children y) \<longrightarrow>
                                 children x = renamed p (identifier nn) (children y))
                       else children x = children y))"
    unfolding m4_def f_def by blast
  have nn_eq: "nn = newn" using nn1 m4n by simp
  have idn: "identifier nn = n" "children nn = tot" "parent nn = parent pn"
    by (simp_all add: nn_eq newn_def)
  have sub: "set tot \<subseteq> dom m4" using nn2 unfolding idn .
  have rt: "root_id t' = root'" using nn3 by (simp add: t4_def)
  have pt: "\<exists>y. m4 k = Some y \<and> identifier x = identifier y
                   \<and> parent x = (if k \<in> set tot then Some n else parent y)
                   \<and> (if pnew = Some k \<and> p \<noteq> n
                       then p \<in> set (children y)
                            \<and> (distinct (children y) \<longrightarrow> children x = renamed p n (children y))
                       else children x = children y)"
    if "f k = Some x" for k x
    using nn5 [unfolded idn, folded pnew_def] that by blast
  have domf: "dom f = dom m4"
    unfolding f_def m4_def using keys by (rule dom_of_keys)
  have dist': "distinct (map fst (nodes t'))"
    using keys dist4 by simp
  have dom4: "dom m4 = insert n (dom m - {p, c})"
    by (auto simp: m4 split: if_splits)
  have par_f: "\<exists>x. f ch = Some x \<and> parent x = (if ch \<in> set tot then Some n else parent y)"
    if "m4 ch = Some y" for ch y
  proof -
    from that have "ch \<in> dom f" unfolding domf by blast
    then obtain x where x: "f ch = Some x" by blast
    from pt [OF x] that show ?thesis using x by auto
  qed
  have root_ex: "\<exists>r'. root' = Some r' \<and> r' \<in> dom f"
  proof (cases "parent pn")
    case None
    then show ?thesis by (simp add: root'_def domf dom4)
  next
    case (Some g)
    with rootiff [OF mp] r have "r \<noteq> p" by auto
    moreover from rootiff [OF mc] par_c r have "r \<noteq> c" by auto
    ultimately show ?thesis using Some r by (auto simp: root'_def domf dom4)
  qed
  then obtain r' rn' where r': "root' = Some r'" "f r' = Some rn'" by blast
  show ?thesis
  proof (rule well_formedI [OF dist' _ r'(2) [unfolded f_def]])
    show "root_id t' = Some r'" using rt r'(1) by simp
  next
    fix k x assume kx0: "map_of (nodes t') k = Some x"
    then have kx: "f k = Some x" by (simp add: f_def)
    from pt [OF kx] obtain y where y: "m4 k = Some y" "identifier x = identifier y"
      "parent x = (if k \<in> set tot then Some n else parent y)"
      "if pnew = Some k \<and> p \<noteq> n
         then p \<in> set (children y)
              \<and> (distinct (children y) \<longrightarrow> children x = renamed p n (children y))
         else children x = children y" by blast
    have goal: "identifier x = k \<and> distinct (children x) \<and> (parent x = None \<longleftrightarrow> k = r')
           \<and> (\<forall>ch \<in> set (children x). \<exists>cn. f ch = Some cn \<and> parent cn = Some k)"
    proof (cases "k = n")
      case True
      with y(1) have yn: "y = newn" by (simp add: m4)
      have p_tot: "p \<in> set tot \<Longrightarrow> p = n"
        using sub dom4 by auto
      have ch: "children x = tot"
        using y(4) p_tot by (auto simp: yn newn_def split: if_splits)
      have c1: "identifier x = k" using y(2) True by (simp add: yn newn_def)
      have c2: "distinct (children x)" using ch tot_dist by simp
      have c3: "parent x = None \<longleftrightarrow> k = r'"
      proof (cases "n \<in> set tot")
        case in_tot: True
        from n_tot [OF this] have np: "n = p" "parent pn \<noteq> None" by auto
        with rootiff [OF mp] r r'(1) have "r' \<noteq> n" by (auto simp: root'_def)
        with in_tot y(3) True show ?thesis by simp
      next
        case False
        then have px: "parent x = parent pn" using y(3) True by (simp add: yn newn_def)
        show ?thesis
        proof (cases "parent pn")
          case None
          with px r'(1) True show ?thesis by (simp add: root'_def)
        next
          case (Some g)
          with r'(1) r have rr: "r' = r" by (simp add: root'_def)
          have "r \<noteq> n"
          proof
            assume "r = n"
            with adm' r(2) have "n = p \<or> n = c" by blast
            with \<open>r = n\<close> rootiff [OF mp] rootiff [OF mc] r(1) Some par_c show False by auto
          qed
          with px Some rr True show ?thesis by simp
        qed
      qed
      have c4: "\<forall>ch \<in> set (children x). \<exists>cn. f ch = Some cn \<and> parent cn = Some k"
      proof
        fix ch assume "ch \<in> set (children x)"
        then have cht: "ch \<in> set tot" using ch by simp
        with sub obtain y' where "m4 ch = Some y'" by blast
        from par_f [OF this] cht True show "\<exists>cn. f ch = Some cn \<and> parent cn = Some k" by auto
      qed
      from c1 c2 c3 c4 show ?thesis by blast
    next
      case False
      with y(1) have my: "m k = Some y" and kp: "k \<noteq> p" and kc: "k \<noteq> c"
        by (auto simp: m4 split: if_splits)
      have c1: "identifier x = k" using y(2) ident [OF my] by simp
      have n_notin: "n \<notin> set (children y)" if "p \<noteq> n"
      proof
        assume "n \<in> set (children y)"
        from listed [OF my this] obtain z where z: "m n = Some z" "parent z = Some k" by blast
        with adm' that have "n = c" by blast
        with z mc par_c kp show False by simp
      qed
      have c2: "distinct (children x)"
        using y(4) dist [OF my] n_notin by (auto intro: distinct_renamed split: if_splits)
      have c3: "parent x = None \<longleftrightarrow> k = r'"
      proof (cases "k \<in> set tot")
        case True
        from tot_par [OF this] my have "parent y \<noteq> None" by auto
        with rootiff [OF my] have "root_id t \<noteq> Some k" by simp
        with r'(1) False have "r' \<noteq> k" by (auto simp: root'_def split: if_splits)
        with True y(3) show ?thesis by auto
      next
        case notin: False
        then have px: "parent x = parent y" using y(3) by simp
        show ?thesis
        proof (cases "parent pn")
          case None
          with rootiff [OF mp] have "root_id t = Some p" by simp
          with rootiff [OF my] kp have "parent y \<noteq> None" by simp
          with px None r'(1) False show ?thesis by (auto simp: root'_def)
        next
          case (Some g)
          with r'(1) have "root_id t = Some r'" by (simp add: root'_def)
          with rootiff [OF my] px show ?thesis by auto
        qed
      qed
      have pnn: "parent nn = pnew" if "f n = Some nn" for nn
      proof -
        from pt [OF that] m4n have "parent nn = (if n \<in> set tot then Some n else parent newn)"
          by auto
        then show ?thesis by (simp add: pnew_def newn_def)
      qed
      have old_child: "\<exists>cn. f ch = Some cn \<and> parent cn = Some k"
        if chy: "ch \<in> set (children y)" and chp: "ch = p \<longrightarrow> p = n" for ch
      proof -
        from listed [OF my chy] obtain z where z: "m ch = Some z" "parent z = Some k" by blast
        have chc: "ch \<noteq> c" using z mc par_c kp by auto
        have ch_nt: "ch \<notin> set tot"
        proof
          assume "ch \<in> set tot"
          from tot_par [OF this] z kp kc show False by auto
        qed
        show ?thesis
        proof (cases "ch = n")
          case True
          have "n \<in> dom f" unfolding domf dom4 by simp
          then obtain nn' where nn': "f n = Some nn'" by blast
          from adm' True z chc have "n = p" by blast
          with True z mp ch_nt have "pnew = Some k" by (auto simp: pnew_def)
          with pnn [OF nn'] nn' True show ?thesis by simp
        next
          case False
          with chp have "ch \<noteq> p" by blast
          with z chc False have "m4 ch = Some z" by (simp add: m4)
          from par_f [OF this] ch_nt z show ?thesis by auto
        qed
      qed
      have c4: "\<forall>ch \<in> set (children x). \<exists>cn. f ch = Some cn \<and> parent cn = Some k"
      proof (cases "pnew = Some k \<and> p \<noteq> n")
        case True
        with y(4) dist [OF my] have chx: "children x = renamed p n (children y)" by simp
        show ?thesis
        proof
          fix ch assume "ch \<in> set (children x)"
          with chx have "ch = n \<and> p \<in> set (children y) \<or> ch \<in> set (children y) \<and> ch \<noteq> p"
            by (auto dest: in_renamed)
          then show "\<exists>cn. f ch = Some cn \<and> parent cn = Some k"
          proof
            assume a: "ch = n \<and> p \<in> set (children y)"
            have "n \<in> dom f" unfolding domf dom4 by simp
            then obtain nn' where nn': "f n = Some nn'" by blast
            with pnn [OF nn'] True a show ?thesis by simp
          next
            assume "ch \<in> set (children y) \<and> ch \<noteq> p"
            then show ?thesis using old_child by blast
          qed
        qed
      next
        case False
        with y(4) have chx: "children x = children y" by auto
        show ?thesis
        proof
          fix ch assume "ch \<in> set (children x)"
          with chx have chy: "ch \<in> set (children y)" by simp
          have "ch = p \<longrightarrow> p = n"
          proof (intro impI, rule ccontr)
            assume cp: "ch = p" and pn': "p \<noteq> n"
            from listed [OF my chy] cp mp have "parent pn = Some k" by auto
            moreover have "n \<notin> set tot" using n_tot pn' by blast
            ultimately have "pnew = Some k" by (simp add: pnew_def)
            with False pn' show False by simp
          qed
          with chy show "\<exists>cn. f ch = Some cn \<and> parent cn = Some k" by (rule old_child)
        qed
      qed
      from c1 c2 c3 c4 show ?thesis by blast
    qed
    then show "identifier x = k \<and> distinct (children x) \<and> (parent x = None \<longleftrightarrow> k = r')
           \<and> (\<forall>c \<in> set (children x). \<exists>cn. map_of (nodes t') c = Some cn \<and> parent cn = Some k)"
      by (simp add: f_def)
  qed
qed

lemma split_node_Inr:
  assumes ok: "split_node t u1 u2 old id1 nb1 id2 nb2 = Inr t'"
    and ne1: "id1 \<noteq> []" and ne2: "id2 \<noteq> []"
  shows "\<exists>node P C pall cnb t4. map_of (nodes t) old = Some node
     \<and> ((P, C, pall, cnb) = (id1, id2, nb1, nb2) \<or> (P, C, pall, cnb) = (id2, id1, nb2, nb1))
     \<and> (\<forall>g. parent node = Some g \<longrightarrow> g \<in> set pall)
     \<and> priv_replace_node (split_start t old node P C pall cnb) C C = Inr t4
     \<and> priv_replace_node t4 P old = Inr t'"
proof -
  have "map_of (nodes t) old \<noteq> None"
  proof
    assume "map_of (nodes t) old = None"
    then have "split_node t u1 u2 old id1 nb1 id2 nb2 = Inl KeyError"
      unfolding split_node_def by (simp add: getitem_def)
    with ok show False by simp
  qed
  then obtain node where node: "map_of (nodes t) old = Some node" by blast
  have gi: "getitem (nodes t) old = Inr node" using node by (rule getitem_Some)
  have pop: "dict_pop (nodes t) old = Inr (AList.delete old (nodes t))"
    using node by (intro dict_pop_dom) blast
  have init1: "Node_init u1 [] id1 = \<lparr>identifier = id1, tag = id1, parent = None, children = []\<rparr>"
    "Node_init u1 [] id2 = \<lparr>identifier = id2, tag = id2, parent = None, children = []\<rparr>"
    "Node_init u2 [] id1 = \<lparr>identifier = id1, tag = id1, parent = None, children = []\<rparr>"
    "Node_init u2 [] id2 = \<lparr>identifier = id2, tag = id2, parent = None, children = []\<rparr>"
    using ne1 ne2 by (simp_all add: Node_init_def)
  have fin: "\<exists>t4. priv_replace_node X C C = Inr t4 \<and> priv_replace_node t4 P old = Inr t'"
    if "(case priv_replace_node X C C of Inl e \<Rightarrow> Inl e
         | Inr t4 \<Rightarrow> priv_replace_node t4 P old) = Inr t'" for X P C
    using that by (cases "priv_replace_node X C C") auto
  show ?thesis
  proof (cases "parent node")
    case None
    have "split_node t u1 u2 old id1 nb1 id2 nb2 =
            (case priv_replace_node (split_start t old node id1 id2 nb1 nb2) id2 id2 of
               Inl e \<Rightarrow> Inl e | Inr t4 \<Rightarrow> priv_replace_node t4 id1 old)"
      unfolding split_node_def split_start_def
      by (simp add: gi pop None is_root_def init1 add_parent_def add_children_def add_child_def
            Let_def)
    with ok have "\<exists>t4. priv_replace_node (split_start t old node id1 id2 nb1 nb2) id2 id2 = Inr t4
            \<and> priv_replace_node t4 id1 old = Inr t'"
      by (intro fin) simp
    then obtain t4 where "priv_replace_node (split_start t old node id1 id2 nb1 nb2) id2 id2 = Inr t4"
      "priv_replace_node t4 id1 old = Inr t'" by blast
    with node None show ?thesis
      by (intro exI [of _ node] exI [of _ id1] exI [of _ id2] exI [of _ nb1] exI [of _ nb2]
            exI [of _ t4]) simp
  next
    case (Some g)
    show ?thesis
    proof (cases "g \<in> set nb1")
      case True
      have "split_node t u1 u2 old id1 nb1 id2 nb2 =
            (case priv_replace_node (split_start t old node id1 id2 nb1 nb2) id2 id2 of
               Inl e \<Rightarrow> Inl e | Inr t4 \<Rightarrow> priv_replace_node t4 id1 old)"
        unfolding split_node_def split_start_def
        by (simp add: gi pop Some True is_root_def init1 add_parent_def add_children_def
              add_child_def list_remove_def Let_def)
      with ok have "\<exists>t4. priv_replace_node (split_start t old node id1 id2 nb1 nb2) id2 id2 = Inr t4
            \<and> priv_replace_node t4 id1 old = Inr t'"
        by (intro fin) simp
      then obtain t4 where "priv_replace_node (split_start t old node id1 id2 nb1 nb2) id2 id2 = Inr t4"
        "priv_replace_node t4 id1 old = Inr t'" by blast
      with node Some True show ?thesis
        by (intro exI [of _ node] exI [of _ id1] exI [of _ id2] exI [of _ nb1] exI [of _ nb2]
              exI [of _ t4]) simp
    next
      case False
      have g2: "g \<in> set nb2"
      proof (rule ccontr)
        assume "g \<notin> set nb2"
        then have "split_node t u1 u2 old id1 nb1 id2 nb2 = Inl AssertionError"
          unfolding split_node_def by (simp add: gi Some False is_root_def)
        with ok show False by simp
      qed
      have "split_node t u1 u2 old id1 nb1 id2 nb2 =
            (case priv_replace_node (split_start t old node id2 id1 nb2 nb1) id1 id1 of
               Inl e \<Rightarrow> Inl e | Inr t4 \<Rightarrow> priv_replace_node t4 id2 old)"
        unfolding split_node_def split_start_def
        by (simp add: gi pop Some False g2 is_root_def init1 add_parent_def add_children_def
              add_child_def list_remove_def Let_def)
      with ok have "\<exists>t4. priv_replace_node (split_start t old node id2 id1 nb2 nb1) id1 id1 = Inr t4
            \<and> priv_replace_node t4 id2 old = Inr t'"
        by (intro fin) simp
      then obtain t4 where "priv_replace_node (split_start t old node id2 id1 nb2 nb1) id1 id1 = Inr t4"
        "priv_replace_node t4 id2 old = Inr t'" by blast
      with node Some g2 show ?thesis
        by (intro exI [of _ node] exI [of _ id2] exI [of _ id1] exI [of _ nb2] exI [of _ nb1]
              exI [of _ t4]) simp
    qed
  qed
qed

lemma well_formed_split_node:
  assumes w: "well_formed t"
    and adm: "admissible t (SplitNode u1 u2 old id1 nb1 id2 nb2)"
    and ok: "split_node t u1 u2 old id1 nb1 id2 nb2 = Inr t'"
  shows "well_formed t'"
proof -
  define m where "m = map_of (nodes t)"
  from adm have ne1: "id1 \<noteq> []" and ne2: "id2 \<noteq> []" and ne12: "id1 \<noteq> id2"
    and fr1: "id1 = old \<or> id1 \<notin> dom m" and fr2: "id2 = old \<or> id2 \<notin> dom m"
    and dnb: "distinct (nb1 @ nb2)"
    by (auto simp: contains_dom m_def)
  from split_node_Inr [OF ok ne1 ne2] obtain node P C pall cnb t4 where
    node: "m old = Some node"
    and sel: "(P, C, pall, cnb) = (id1, id2, nb1, nb2) \<or> (P, C, pall, cnb) = (id2, id1, nb2, nb1)"
    and gin: "\<forall>g. parent node = Some g \<longrightarrow> g \<in> set pall"
    and stepA: "priv_replace_node (split_start t old node P C pall cnb) C C = Inr t4"
    and stepB: "priv_replace_node t4 P old = Inr t'"
    unfolding m_def by blast
  from adm node have nbsub: "set (nb1 @ nb2) \<subseteq> set (neighbouring_nodes node)"
    by (simp add: m_def)
  have PC: "P \<noteq> C" using sel ne12 by auto
  have frP: "P = old \<or> P \<notin> dom m" and frC: "C = old \<or> C \<notin> dom m"
    using sel fr1 fr2 by auto
  have dall: "distinct pall" "distinct cnb" "set pall \<inter> set cnb = {}"
    using sel dnb by auto
  have suball: "set pall \<union> set cnb \<subseteq> set (neighbouring_nodes node)"
    using sel nbsub by auto
  define pnb where "pnb = (case parent node of None \<Rightarrow> pall | Some g \<Rightarrow> remove1 g pall)"
  have listed: "\<exists>z. m ch = Some z \<and> parent z = Some k"
    if "m k = Some x" "ch \<in> set (children x)" for k x ch
    using well_formedD(6) [OF w] that unfolding m_def by blast
  have ident: "identifier x = k" if "m k = Some x" for k x
    using well_formedD(3) [OF w] that unfolding m_def by blast
  have dist: "distinct (children x)" if "m k = Some x" for k x
    using well_formedD(4) [OF w] that unfolding m_def by blast
  have rootiff: "(parent x = None) = (root_id t = Some k)" if "m k = Some x" for k x
    using well_formedD(5) [OF w] that unfolding m_def by blast
  from well_formedD(2) [OF w] obtain r rn where r: "root_id t = Some r" "m r = Some rn"
    unfolding m_def by blast
  have g_notin: "g \<notin> set pnb \<union> set cnb" if "parent node = Some g" for g
    using that dall gin by (auto simp: pnb_def)
  have nbs: "set pnb \<union> set cnb \<subseteq> set (children node)"
  proof (cases "parent node")
    case None
    then show ?thesis using suball by (auto simp: pnb_def neighbouring_nodes_def is_root_def)
  next
    case (Some g)
    have "set pnb \<union> set cnb \<subseteq> set pall \<union> set cnb"
      using set_remove1_subset [of g pall] by (auto simp: pnb_def Some)
    with suball have "set pnb \<union> set cnb \<subseteq> insert g (set (children node))"
      using Some by (auto simp: neighbouring_nodes_def is_root_def)
    with g_notin [OF Some] show ?thesis by blast
  qed
  have dpnb: "distinct pnb" using dall by (auto simp: pnb_def split: option.splits)
  have disj: "set pnb \<inter> set cnb = {}"
    using dall by (auto simp: pnb_def split: option.splits dest: notin_set_remove1)
  have child_par: "\<exists>z. m ch = Some z \<and> parent z = Some old" if "ch \<in> set pnb \<union> set cnb" for ch
    using listed [OF node] nbs that by blast
  have old_notin: "old \<notin> set pnb \<union> set cnb"
  proof
    assume a: "old \<in> set pnb \<union> set cnb"
    from child_par [OF a] node have "parent node = Some old" by simp
    from g_notin [OF this] a show False by blast
  qed
  have P_notin: "P \<notin> set pnb \<union> set cnb"
  proof
    assume a: "P \<in> set pnb \<union> set cnb"
    from child_par [OF a] have "P \<in> dom m" by blast
    with frP have "P = old" by blast
    with a old_notin show False by blast
  qed
  have C_notin: "C \<notin> set pnb \<union> set cnb"
  proof
    assume a: "C \<in> set pnb \<union> set cnb"
    from child_par [OF a] have "C \<in> dom m" by blast
    with frC have "C = old" by blast
    with a old_notin show False by blast
  qed
  define pnode where "pnode = \<lparr>identifier = P, tag = P, parent = parent node, children = pnb @ [C]\<rparr>"
  define cnode where "cnode = \<lparr>identifier = C, tag = C, parent = Some P, children = cnb\<rparr>"
  define t3 where "t3 = split_start t old node P C pall cnb"
  define m3 where "m3 = map_of (nodes t3)"
  define root3 where "root3 = (if parent node = None then Some P else root_id t)"
  define fA where "fA = map_of (nodes t4)"
  define f where "f = map_of (nodes t')"
  have m3: "m3 = (m(old := None))(P \<mapsto> pnode, C \<mapsto> cnode)"
    by (simp add: m3_def t3_def split_start_def AList.update_conv' AList.delete_conv' m_def
          pnode_def cnode_def pnb_def)
  have rt3: "root_id t3 = root3" by (simp add: t3_def split_start_def root3_def)
  have dist3: "distinct (map fst (nodes t3))"
    unfolding t3_def split_start_def
    by (simp, intro AList.distinct_update AList.distinct_delete well_formedD(1) [OF w])
  have m3P: "m3 P = Some pnode" and m3C: "m3 C = Some cnode"
    using PC by (simp_all add: m3)
  have dom3: "dom m3 = insert P (insert C (dom m - {old}))"
    by (auto simp: m3 split: if_splits)
  \<comment> \<open>the first call: the children of the child node get it as their parent\<close>
  from priv_replace_node_pointwise [OF stepA [folded t3_def]] obtain nnA where
    a1: "m3 C = Some nnA" and a2: "set (children nnA) \<subseteq> dom m3"
    and a3: "root_id t4 = root_id t3" and keysA: "map fst (nodes t4) = map fst (nodes t3)"
    and a5: "\<forall>k x. fA k = Some x \<longrightarrow>
                (\<exists>y. m3 k = Some y \<and> identifier x = identifier y
                   \<and> parent x = (if k \<in> set (children nnA) then Some (identifier nnA) else parent y)
                   \<and> (if (if C \<in> set (children nnA) then Some (identifier nnA) else parent nnA) = Some k
                          \<and> C \<noteq> identifier nnA
                       then C \<in> set (children y)
                            \<and> (distinct (children y) \<longrightarrow>
                                 children x = renamed C (identifier nnA) (children y))
                       else children x = children y))"
    unfolding m3_def fA_def by blast
  have nnA: "nnA = cnode" using a1 m3C by simp
  have idA: "identifier nnA = C" "children nnA = cnb" by (simp_all add: nnA cnode_def)
  have subA: "set cnb \<subseteq> dom m3" using a2 unfolding idA .
  have ptA: "\<exists>y. m3 k = Some y \<and> identifier x = identifier y
                   \<and> parent x = (if k \<in> set cnb then Some C else parent y)
                   \<and> children x = children y"
    if "fA k = Some x" for k x
    using a5 [unfolded idA] that by auto
  have domA: "dom fA = dom m3"
    unfolding fA_def m3_def using keysA by (rule dom_of_keys)
  have "P \<in> dom fA" unfolding domA dom3 by simp
  then obtain xP where xP: "fA P = Some xP" by blast
  have xP_facts: "identifier xP = P" "parent xP = parent node" "children xP = pnb @ [C]"
    using ptA [OF xP] m3P P_notin by (auto simp: pnode_def)
  \<comment> \<open>the second call: the children of the parent node, and the old node's parent\<close>
  from priv_replace_node_pointwise [OF stepB] obtain nnB where
    b1: "fA P = Some nnB" and b2: "set (children nnB) \<subseteq> dom fA"
    and b3: "root_id t' = root_id t4" and keysB: "map fst (nodes t') = map fst (nodes t4)"
    and b5: "\<forall>k x. f k = Some x \<longrightarrow>
                (\<exists>y. fA k = Some y \<and> identifier x = identifier y
                   \<and> parent x = (if k \<in> set (children nnB) then Some (identifier nnB) else parent y)
                   \<and> (if (if P \<in> set (children nnB) then Some (identifier nnB) else parent nnB) = Some k
                          \<and> old \<noteq> identifier nnB
                       then old \<in> set (children y)
                            \<and> (distinct (children y) \<longrightarrow>
                                 children x = renamed old (identifier nnB) (children y))
                       else children x = children y))"
    unfolding fA_def f_def by blast
  have nnB: "nnB = xP" using b1 xP by simp
  have P_nch: "P \<notin> set (pnb @ [C])" using P_notin PC by auto
  have idB: "identifier nnB = P" "children nnB = pnb @ [C]"
    by (simp_all add: nnB xP_facts)
  have pB: "(if P \<in> set (pnb @ [C]) then Some P else parent nnB) = parent node"
    using P_nch by (simp add: nnB xP_facts)
  have subB: "set (pnb @ [C]) \<subseteq> dom m3" using b2 unfolding idB domA .
  have ptB: "\<exists>y. fA k = Some y \<and> identifier x = identifier y
                   \<and> parent x = (if k \<in> set (pnb @ [C]) then Some P else parent y)
                   \<and> (if parent node = Some k \<and> old \<noteq> P
                       then old \<in> set (children y)
                            \<and> (distinct (children y) \<longrightarrow> children x = renamed old P (children y))
                       else children x = children y)"
    if "f k = Some x" for k x
    using b5 [unfolded idB pB] that by blast
  have pt: "\<exists>y. m3 k = Some y \<and> identifier x = identifier y
                   \<and> parent x = (if k \<in> set pnb \<or> k = C then Some P
                                  else if k \<in> set cnb then Some C else parent y)
                   \<and> (if parent node = Some k \<and> old \<noteq> P
                       then old \<in> set (children y)
                            \<and> (distinct (children y) \<longrightarrow> children x = renamed old P (children y))
                       else children x = children y)"
    if kx: "f k = Some x" for k x
  proof -
    from ptB [OF kx] obtain y where y: "fA k = Some y" "identifier x = identifier y"
      "parent x = (if k \<in> set (pnb @ [C]) then Some P else parent y)"
      "if parent node = Some k \<and> old \<noteq> P
         then old \<in> set (children y)
              \<and> (distinct (children y) \<longrightarrow> children x = renamed old P (children y))
         else children x = children y" by blast
    from ptA [OF y(1)] obtain y0 where y0: "m3 k = Some y0" "identifier y = identifier y0"
      "parent y = (if k \<in> set cnb then Some C else parent y0)" "children y = children y0"
      by blast
    show ?thesis using y(2,3,4) y0 by auto
  qed
  have domf: "dom f = dom m3"
    unfolding f_def using dom_of_keys [OF keysB] domA by (simp add: fA_def)
  have dist': "distinct (map fst (nodes t'))"
    using keysB keysA dist3 by simp
  have rt: "root_id t' = root3" using b3 a3 rt3 by simp
  have par_f: "\<exists>x. f ch = Some x
                 \<and> parent x = (if ch \<in> set pnb \<or> ch = C then Some P
                               else if ch \<in> set cnb then Some C else parent y)"
    if "m3 ch = Some y" for ch y
  proof -
    from that have "ch \<in> dom f" unfolding domf by blast
    then obtain x where x: "f ch = Some x" by blast
    from pt [OF x] that show ?thesis using x by auto
  qed
  have parP: "\<exists>x. f P = Some x \<and> parent x = parent node"
    using par_f [OF m3P] P_notin PC by (auto simp: pnode_def)
  have root_ex: "\<exists>r'. root3 = Some r' \<and> r' \<in> dom f"
  proof (cases "parent node")
    case None
    then show ?thesis by (simp add: root3_def domf dom3)
  next
    case (Some g)
    with rootiff [OF node] r have "r \<noteq> old" by auto
    with Some r show ?thesis by (auto simp: root3_def domf dom3)
  qed
  then obtain r' rn' where r': "root3 = Some r'" "f r' = Some rn'" by blast
  have r'P: "r' \<noteq> P" if "parent node \<noteq> None"
  proof
    assume e: "r' = P"
    from that r'(1) r have "r' = r" by (auto simp: root3_def)
    with e r(2) frP have "P = old" by blast
    with e \<open>r' = r\<close> r node rootiff [OF node] that show False by simp
  qed
  show ?thesis
  proof (rule well_formedI [OF dist' _ r'(2) [unfolded f_def]])
    show "root_id t' = Some r'" using rt r'(1) by simp
  next
    fix k x assume kx0: "map_of (nodes t') k = Some x"
    then have kx: "f k = Some x" by (simp add: f_def)
    from pt [OF kx] obtain y where y: "m3 k = Some y" "identifier x = identifier y"
      "parent x = (if k \<in> set pnb \<or> k = C then Some P
                   else if k \<in> set cnb then Some C else parent y)"
      "if parent node = Some k \<and> old \<noteq> P
         then old \<in> set (children y)
              \<and> (distinct (children y) \<longrightarrow> children x = renamed old P (children y))
         else children x = children y" by blast
    have new_child: "\<exists>cn. f ch = Some cn \<and> parent cn = Some P" if "ch \<in> set (pnb @ [C])" for ch
    proof -
      from that subB obtain y' where "m3 ch = Some y'" by blast
      from par_f [OF this] that show ?thesis by auto
    qed
    have goal: "identifier x = k \<and> distinct (children x) \<and> (parent x = None \<longleftrightarrow> k = r')
           \<and> (\<forall>ch \<in> set (children x). \<exists>cn. f ch = Some cn \<and> parent cn = Some k)"
    proof -
      consider (isP) "k = P" | (isC) "k = C" | (oth) "k \<noteq> P" "k \<noteq> C" by blast
      then show ?thesis
      proof cases
        case isP
        with y(1) m3P have yP: "y = pnode" by simp
        have chy: "children y = pnb @ [C]" "distinct (children y)"
          using dpnb C_notin by (auto simp: yP pnode_def)
        have c1: "identifier x = k" using y(2) isP by (simp add: yP pnode_def)
        have c2: "distinct (children x)"
          using y(4) chy P_nch by (auto intro: distinct_renamed split: if_splits)
        have px: "parent x = parent node"
          using y(3) isP P_notin PC by (simp add: yP pnode_def)
        have c3: "parent x = None \<longleftrightarrow> k = r'"
          using px r'(1) r'P isP by (cases "parent node") (auto simp: root3_def)
        have c4: "\<forall>ch \<in> set (children x). \<exists>cn. f ch = Some cn \<and> parent cn = Some k"
        proof
          fix ch assume chx: "ch \<in> set (children x)"
          show "\<exists>cn. f ch = Some cn \<and> parent cn = Some k"
          proof (cases "parent node = Some k \<and> old \<noteq> P")
            case True
            with y(4) chy have "children x = renamed old P (pnb @ [C])" by simp
            with chx have "ch = P \<or> ch \<in> set (pnb @ [C])" by (auto dest: in_renamed)
            then show ?thesis
            proof
              assume "ch = P"
              with parP True isP show ?thesis by auto
            next
              assume "ch \<in> set (pnb @ [C])"
              from new_child [OF this] isP show ?thesis by simp
            qed
          next
            case False
            with y(4) chy chx have "ch \<in> set (pnb @ [C])" by auto
            from new_child [OF this] isP show ?thesis by simp
          qed
        qed
        from c1 c2 c3 c4 show ?thesis by blast
      next
        case isC
        with y(1) m3C have yC: "y = cnode" by simp
        have notG: "\<not> (parent node = Some k \<and> old \<noteq> P)"
        proof
          assume "parent node = Some k \<and> old \<noteq> P"
          with y(4) have "old \<in> set (children y)" by simp
          with old_notin show False by (simp add: yC cnode_def)
        qed
        with y(4) have chx: "children x = cnb" by (simp add: yC cnode_def)
        have c1: "identifier x = k" using y(2) isC by (simp add: yC cnode_def)
        have c2: "distinct (children x)" using chx dall by simp
        have px: "parent x = Some P" using y(3) isC by simp
        have "r' \<noteq> C"
        proof
          assume e: "r' = C"
          with r'(1) PC have pn: "parent node \<noteq> None" and "r' = r"
            using r by (auto simp: root3_def split: if_splits)
          with e r(2) frC have "C = old" by blast
          with e \<open>r' = r\<close> r node rootiff [OF node] pn show False by simp
        qed
        with px isC have c3: "parent x = None \<longleftrightarrow> k = r'" by simp
        have c4: "\<forall>ch \<in> set (children x). \<exists>cn. f ch = Some cn \<and> parent cn = Some k"
        proof
          fix ch assume "ch \<in> set (children x)"
          then have chc: "ch \<in> set cnb" using chx by simp
          with subA obtain y' where "m3 ch = Some y'" by blast
          from par_f [OF this] chc disj C_notin isC
          show "\<exists>cn. f ch = Some cn \<and> parent cn = Some k" by auto
        qed
        from c1 c2 c3 c4 show ?thesis by blast
      next
        case oth
        with y(1) have my: "m k = Some y" and kold: "k \<noteq> old"
          by (auto simp: m3 split: if_splits)
        have c1: "identifier x = k" using y(2) ident [OF my] by simp
        have P_ny: "P \<notin> set (children y)" if "old \<noteq> P"
        proof
          assume "P \<in> set (children y)"
          from listed [OF my this] have "P \<in> dom m" by blast
          with frP that show False by blast
        qed
        have c2: "distinct (children x)"
          using y(4) dist [OF my] P_ny by (auto intro: distinct_renamed split: if_splits)
        have c3: "parent x = None \<longleftrightarrow> k = r'"
        proof (cases "k \<in> set pnb \<union> set cnb")
          case True
          from child_par [OF this] my have "parent y \<noteq> None" by auto
          with rootiff [OF my] have "root_id t \<noteq> Some k" by simp
          with r'(1) oth have "r' \<noteq> k" by (auto simp: root3_def split: if_splits)
          with True y(3) show ?thesis by auto
        next
          case False
          with oth y(3) have px: "parent x = parent y" by auto
          show ?thesis
          proof (cases "parent node")
            case None
            with rootiff [OF node] have "root_id t = Some old" by simp
            with rootiff [OF my] kold have "parent y \<noteq> None" by simp
            with px None r'(1) oth show ?thesis by (auto simp: root3_def)
          next
            case (Some g)
            with r'(1) have "root_id t = Some r'" by (simp add: root3_def)
            with rootiff [OF my] px show ?thesis by auto
          qed
        qed
        have old_child: "\<exists>cn. f ch = Some cn \<and> parent cn = Some k"
          if chy: "ch \<in> set (children y)" and cho: "ch = old \<longrightarrow> old = P" for ch
        proof -
          from listed [OF my chy] obtain z where z: "m ch = Some z" "parent z = Some k" by blast
          show ?thesis
          proof (cases "ch = old")
            case True
            with cho have "old = P" by blast
            with True z node parP show ?thesis by auto
          next
            case False
            have "ch \<noteq> P" "ch \<noteq> C" using z(1) False frP frC by blast+
            with z False have m3ch: "m3 ch = Some z" by (simp add: m3)
            have "ch \<notin> set pnb \<union> set cnb"
            proof
              assume "ch \<in> set pnb \<union> set cnb"
              from child_par [OF this] z kold show False by simp
            qed
            with par_f [OF m3ch] \<open>ch \<noteq> C\<close> z show ?thesis by auto
          qed
        qed
        have c4: "\<forall>ch \<in> set (children x). \<exists>cn. f ch = Some cn \<and> parent cn = Some k"
        proof (cases "parent node = Some k \<and> old \<noteq> P")
          case True
          with y(4) dist [OF my] have chx: "children x = renamed old P (children y)" by simp
          show ?thesis
          proof
            fix ch assume "ch \<in> set (children x)"
            with chx have "ch = P \<or> ch \<in> set (children y) \<and> ch \<noteq> old"
              by (auto dest: in_renamed)
            then show "\<exists>cn. f ch = Some cn \<and> parent cn = Some k"
            proof
              assume "ch = P"
              with parP True show ?thesis by auto
            next
              assume "ch \<in> set (children y) \<and> ch \<noteq> old"
              then show ?thesis using old_child by blast
            qed
          qed
        next
          case False
          with y(4) have chx: "children x = children y" by auto
          show ?thesis
          proof
            fix ch assume "ch \<in> set (children x)"
            with chx have chy: "ch \<in> set (children y)" by simp
            have "ch = old \<longrightarrow> old = P"
            proof (intro impI, rule ccontr)
              assume co: "ch = old" and "old \<noteq> P"
              from listed [OF my chy] co node have "parent node = Some k" by auto
              with False \<open>old \<noteq> P\<close> show False by simp
            qed
            with chy show "\<exists>cn. f ch = Some cn \<and> parent cn = Some k" by (rule old_child)
          qed
        qed
        from c1 c2 c3 c4 show ?thesis by blast
      qed
    qed
    then show "identifier x = k \<and> distinct (children x) \<and> (parent x = None \<longleftrightarrow> k = r')
           \<and> (\<forall>c \<in> set (children x). \<exists>cn. map_of (nodes t') c = Some cn \<and> parent cn = Some k)"
      by (simp add: f_def)
  qed
qed

lemma apply_call_empty:
  assumes "apply_call empty_tree c = Inr t'"
  shows "\<exists>n. c = AddRoot n"
proof (cases c)
  case (AddRoot n)
  then show ?thesis by simp
next
  case (AddChildToParent n parent_id)
  with assms show ?thesis
    by (simp add: add_child_to_parent_def ensure_existence_def contains_def empty_tree_def)
next
  case (AddParentToRoot n)
  with assms show ?thesis
    by (simp add: add_parent_to_root_def priv_add_node_def ensure_uniqueness_def contains_def
          empty_tree_def)
next
  case (CombineNodes uuid a b new_id)
  with assms show ?thesis
    by (simp add: combine_nodes_def determine_parentage_def getitem_def empty_tree_def)
next
  case (SplitNode u1 u2 old a nb1 b nb2)
  with assms show ?thesis
    by (simp add: split_node_def getitem_def empty_tree_def)
qed

lemma well_formed_step:
  assumes "well_formed t" "admissible t c" "apply_call t c = Inr t'"
  shows "well_formed t'"
proof (cases c)
  case (AddRoot n)
  with assms well_formed_add_root_vacuous show ?thesis by auto
next
  case (AddChildToParent n parent_id)
  with assms well_formed_add_child_to_parent show ?thesis by auto
next
  case (AddParentToRoot n)
  with assms well_formed_add_parent_to_root show ?thesis by auto
next
  case (CombineNodes uuid a b new_id)
  with assms well_formed_combine_nodes show ?thesis by auto
next
  case (SplitNode u1 u2 old a nb1 b nb2)
  with assms well_formed_split_node show ?thesis by auto
qed

lemma reachable_well_formed: "reachable t \<Longrightarrow> t = empty_tree \<or> well_formed t"
proof (induction rule: reachable.induct)
  case start
  then show ?case by simp
next
  case (step t c t')
  from step.IH show ?case
  proof
    assume e: "t = empty_tree"
    with step.hyps(3) obtain n where "c = AddRoot n" using apply_call_empty by blast
    with step.hyps(2,3) e well_formed_add_root show ?thesis by auto
  next
    assume "well_formed t"
    with step.hyps(2,3) well_formed_step show ?thesis by blast
  qed
qed

lemma reachable_built: "reachable t \<Longrightarrow> built t"
  by (induction rule: reachable.induct) (auto intro: built.intros)

lemma fresh_node_admissible:
  "admissible t (AddRoot (Node_init u a b))"
  "admissible t (AddChildToParent (Node_init u a b) p)"
  by (simp_all add: detached_def Node_init_def)

lemma small_tree_reachable: "reachable small_tree"
proof -
  let ?t1 = "\<lparr>nodes = [(''root'', \<lparr>identifier = ''root'', tag = ''root'', parent = None,
                                  children = []\<rparr>)],
              root_id = Some ''root''\<rparr>"
  let ?t2 = "\<lparr>nodes = [(''root'', \<lparr>identifier = ''root'', tag = ''root'', parent = None,
                                  children = [''c1'']\<rparr>),
                       (''c1'', \<lparr>identifier = ''c1'', tag = ''c1'', parent = Some ''root'',
                                children = []\<rparr>)],
              root_id = Some ''root''\<rparr>"
  have 1: "apply_call empty_tree (AddRoot (Node_init ''u'' ''root'' ''root'')) = Inr ?t1"
    by code_simp
  have 2: "apply_call ?t1 (AddChildToParent (Node_init ''u'' ''c1'' ''c1'') ''root'') = Inr ?t2"
    by code_simp
  have 3: "apply_call ?t2 (AddChildToParent (Node_init ''u'' ''c2'' ''c2'') ''root'')
             = Inr small_tree"
    by code_simp
  from reachable.start fresh_node_admissible(1) 1 have "reachable ?t1" by (rule reachable.step)
  from this fresh_node_admissible(2) 2 have "reachable ?t2" by (rule reachable.step)
  from this fresh_node_admissible(2) 3 show ?thesis by (rule reachable.step)
qed

lemma chain_tree_reachable: "reachable chain_tree"
proof -
  let ?t1 = "\<lparr>nodes = [(''r'', \<lparr>identifier = ''r'', tag = ''r'', parent = None,
                               children = []\<rparr>)],
              root_id = Some ''r''\<rparr>"
  let ?t2 = "\<lparr>nodes = [(''r'', \<lparr>identifier = ''r'', tag = ''r'', parent = None,
                               children = [''g'']\<rparr>),
                       (''g'', \<lparr>identifier = ''g'', tag = ''g'', parent = Some ''r'',
                               children = []\<rparr>)],
              root_id = Some ''r''\<rparr>"
  let ?t3 = "\<lparr>nodes = [(''r'', \<lparr>identifier = ''r'', tag = ''r'', parent = None,
                               children = [''g'']\<rparr>),
                       (''g'', \<lparr>identifier = ''g'', tag = ''g'', parent = Some ''r'',
                               children = [''p'']\<rparr>),
                       (''p'', \<lparr>identifier = ''p'', tag = ''p'', parent = Some ''g'',
                               children = []\<rparr>)],
              root_id = Some ''r''\<rparr>"
  have 1: "apply_call empty_tree (AddRoot (Node_init ''u'' ''r'' ''r'')) = Inr ?t1"
    by code_simp
  have 2: "apply_call ?t1 (AddChildToParent (Node_init ''u'' ''g'' ''g'') ''r'') = Inr ?t2"
    by code_simp
  have 3: "apply_call ?t2 (AddChildToParent (Node_init ''u'' ''p'' ''p'') ''g'') = Inr ?t3"
    by code_simp
  have 4: "apply_call ?t3 (AddChildToParent (Node_init ''u'' ''c'' ''c'') ''p'') = Inr chain_tree"
    by code_simp
  from reachable.start fresh_node_admissible(1) 1 have "reachable ?t1" by (rule reachable.step)
  from this fresh_node_admissible(2) 2 have "reachable ?t2" by (rule reachable.step)
  from this fresh_node_admissible(2) 3 have "reachable ?t3" by (rule reachable.step)
  from this fresh_node_admissible(2) 4 show ?thesis by (rule reachable.step)
qed

text \<open>
  Claim C7.  Every tree built from the empty tree by one or more admissible calls of
  \<open>add_root\<close>, \<open>add_child_to_parent\<close>, \<open>add_parent_to_root\<close>, \<open>combine_nodes\<close> and
  \<open>split_node\<close> that return has exactly one node without a parent, and the identifier
  of that node is \<open>root_id\<close>; every admissible call that returns on such a tree, or on
  the empty tree, gives a tree with this property again.  A call is admissible when the
  node it hands over has no parent and no children, when the identifier of a combined
  node is one of the two combined identifiers or new to the tree, and when a split gets
  two different identifiers that are not empty, each the identifier of the split node or
  new to the tree, and two lists of neighbours that share no identifier, repeat none and
  name neighbours of the split node only.
\<close>

theorem single_root_reachable:
  "reachable t \<Longrightarrow>
     (t = empty_tree \<or> single_root t)
     \<and> (\<forall>c t'. admissible t c \<and> apply_call t c = Inr t' \<longrightarrow> single_root t')"
proof -
  assume re: "reachable t"
  from reachable_well_formed [OF re] well_formed_single_root have a: "t = empty_tree \<or> single_root t" by blast
  have "single_root t'" if "admissible t c" "apply_call t c = Inr t'" for c t'
  proof -
    from re that have "reachable t'" by (rule reachable.step)
    from reachable_well_formed [OF this] have "t' = empty_tree \<or> well_formed t'" .
    moreover have "t' \<noteq> empty_tree"
    proof
      assume e: "t' = empty_tree"
      from reachable_well_formed [OF re] show False
      proof
        assume "t = empty_tree"
        with that(2) obtain n where "c = AddRoot n" using apply_call_empty by blast
        with that(2) \<open>t = empty_tree\<close> e show False
          by (simp add: add_root_def empty_tree_def)
      next
        assume "well_formed t"
        from well_formed_step [OF this that] e show False by (simp add: well_formed_def empty_tree_def)
      qed
    qed
    ultimately show ?thesis using well_formed_single_root by blast
  qed
  with a show ?thesis by blast
qed

theorem single_root_reachable_witness:
  "reachable small_tree \<and> single_root small_tree
   \<and> admissible small_tree (SplitNode ''u1'' ''u2'' ''c1'' ''c1'' [''root''] ''link'' [])
   \<and> split_node small_tree ''u1'' ''u2'' ''c1'' ''c1'' [''root''] ''link'' [] = Inr split_tree
   \<and> single_root split_tree"
proof -
  let ?c = "SplitNode ''u1'' ''u2'' ''c1'' ''c1'' [''root''] ''link'' []"
  have a: "admissible small_tree ?c" by code_simp
  have s: "split_node small_tree ''u1'' ''u2'' ''c1'' ''c1'' [''root''] ''link'' [] = Inr split_tree"
    by code_simp
  then have s': "apply_call small_tree ?c = Inr split_tree" by simp
  have ne: "small_tree \<noteq> empty_tree" by (simp add: small_tree_def empty_tree_def)
  from single_root_reachable [OF small_tree_reachable] ne
  have "single_root small_tree" by blast
  moreover from single_root_reachable [OF small_tree_reachable] a s'
  have "single_root split_tree" by blast
  ultimately show ?thesis using small_tree_reachable a s by blast
qed

text \<open>
  Without the conditions on the arguments the mutators return trees with no node
  without a parent: \<open>add_root\<close> stores a node whose parent is set as it is,
  \<open>split_node\<close> with the parent in both lists of neighbours makes the old parent a child
  of the second new node, and \<open>combine_nodes\<close> with the identifier of the root as the
  new identifier overwrites the root.
\<close>

theorem single_root_counterexample:
  "built attached_tree \<and> \<not> single_root attached_tree
   \<and> built twice_split_tree \<and> \<not> single_root twice_split_tree
   \<and> built overwritten_tree \<and> \<not> single_root overwritten_tree"
proof -
  have 1: "apply_call empty_tree (AddRoot attached_node) = Inr attached_tree"
    by code_simp
  have 2: "apply_call small_tree (SplitNode ''u1'' ''u2'' ''c1'' ''a1'' [''root''] ''a2'' [''root''])
             = Inr twice_split_tree"
    by code_simp
  have 3: "apply_call chain_tree (CombineNodes ''u'' ''p'' ''c'' ''r'') = Inr overwritten_tree"
    by code_simp
  have "built attached_tree" by (rule built.step [OF built.start 1])
  moreover have "built twice_split_tree"
    by (rule built.step [OF reachable_built [OF small_tree_reachable] 2])
  moreover have "built overwritten_tree"
    by (rule built.step [OF reachable_built [OF chain_tree_reachable] 3])
  moreover have "\<not> single_root attached_tree" by code_simp
  moreover have "\<not> single_root twice_split_tree" by code_simp
  moreover have "\<not> single_root overwritten_tree" by code_simp
  ultimately show ?thesis by blast
qed

section \<open>The paths of the planner\<close>











lemma cf_mono:
  "set seen \<subseteq> set seen' \<Longrightarrow> children_first_from t seen p \<Longrightarrow> children_first_from t seen' p"
proof (induction p arbitrary: seen seen')
  case Nil
  show ?case by simp
next
  case (Cons x xs)
  from Cons.prems have a: "list_all (\<lambda>c. c \<in> set seen') (children_of t x)"
    by (auto simp: list_all_iff)
  from Cons.prems have "children_first_from t (x # seen) xs" by simp
  moreover from Cons.prems(1) have "set (x # seen) \<subseteq> set (x # seen')" by auto
  ultimately have "children_first_from t (x # seen') xs" using Cons.IH by blast
  with a show ?case by simp
qed



















section \<open>The orthogonality center of the engine\<close>

text \<open>
  Claim C4.  A site update or a link update at a node that is not the orthogonality
  center, and a move along a path whose first node is not the orthogonality center, fail
  with \<open>AssertionError\<close>; the engine is left as it was, so the center is not moved for
  the caller.
\<close>

theorem wrong_center_is_refused:
  "(orthogonality_center_id (state e) \<noteq> Some node_id \<longrightarrow>
      update_site K e node_id = (Some AssertionError, e)
      \<and> update_link K e node_id next_node_id = (Some AssertionError, e))
   \<and> (orthogonality_center_id (state e) \<noteq> Some first \<longrightarrow>
      move_orth_and_update_cache_for_path K e (first # rest) = (Some AssertionError, e))"
  by (simp add: update_site_def update_link_def move_orth_and_update_cache_for_path_def)

theorem wrong_center_is_refused_witness:
  "orthogonality_center_id (state chain3_engine) = Some ''c1''
   \<and> update_site plain_kernels chain3_engine ''root'' = (Some AssertionError, chain3_engine)
   \<and> update_link plain_kernels chain3_engine ''root'' ''c2'' = (Some AssertionError, chain3_engine)
   \<and> move_orth_and_update_cache_for_path plain_kernels chain3_engine [''root'', ''c2'']
       = (Some AssertionError, chain3_engine)"
  using wrong_center_is_refused [of chain3_engine "''root''" plain_kernels "''c2''" "''root''" "[''c2'']"]
  by (simp add: chain3_engine_def chain3_state_def)

text \<open>
  Claim C6.  A move along the empty path, or along the path that holds the orthogonality
  center alone, returns and leaves the engine as it was: the tensors of the state, the
  orthogonality center and the entries of the cache are the ones before the call.
\<close>

theorem no_op_move:
  "move_orth_and_update_cache_for_path K e [] = (None, e)
   \<and> (orthogonality_center_id (state e) = Some node_id \<longrightarrow>
        move_orth_and_update_cache_for_path K e [node_id] = (None, e))"
  by (simp add: move_orth_and_update_cache_for_path_def)

theorem no_op_move_witness:
  "move_orth_and_update_cache_for_path plain_kernels chain3_engine [] = (None, chain3_engine)
   \<and> move_orth_and_update_cache_for_path plain_kernels chain3_engine [''c1'']
       = (None, chain3_engine)"
  using no_op_move [of plain_kernels chain3_engine "''c1''"]
  by (simp add: chain3_engine_def chain3_state_def)

end
